theory Spec2Isabelle
  imports Complex_Main
begin

section \<open>Characters and strings of the reports\<close>

text \<open>
  A report is a JavaScript string. Its code units are modelled by \<^typ>\<open>char\<close>, that is
  by the code units \<open>0\<close> to \<open>255\<close> (ASCII and the Latin-1 block, where the degree sign
  of the translations is \<open>0xB0\<close>). The classes below are the ones the regular expressions
  of the server use: \<open>\d\<close>, \<open>\w\<close> and \<open>\s\<close>.
\<close>

definition code :: "char \<Rightarrow> nat" where
  "code c = of_char c"

definition is_digit :: "char \<Rightarrow> bool" where
  "is_digit c = (48 \<le> code c \<and> code c \<le> 57)"

definition is_word :: "char \<Rightarrow> bool" where
  "is_word c =
     (is_digit c \<or> (65 \<le> code c \<and> code c \<le> 90) \<or> (97 \<le> code c \<and> code c \<le> 122) \<or> code c = 95)"

definition is_space :: "char \<Rightarrow> bool" where
  "is_space c = ((9 \<le> code c \<and> code c \<le> 13) \<or> code c = 32 \<or> code c = 160)"

definition deg :: char where
  "deg = char_of (176 :: nat)"

section \<open>Regular expressions with captures\<close>

text \<open>
  The fragment of JavaScript regular expressions that the server writes: literals, a
  bracket class, greedy bounded repetition of \<open>\d\<close> or \<open>\s\<close>, sequence, ordered
  alternation, the greedy optional \<open>?\<close>, numbered capture groups and \<open>\b\<close>.
\<close>

datatype cclass = Digit | Space

datatype regex =
    Lit string
  | OneOf string
  | Rep cclass nat "nat option"
  | Seq regex regex
  | Alt regex regex
  | Opt regex
  | Grp nat regex
  | WordB

fun seqs :: "regex list \<Rightarrow> regex" where
  "seqs [] = Lit []"
| "seqs [r] = r"
| "seqs (r # rs) = Seq r (seqs rs)"

fun alts :: "regex list \<Rightarrow> regex" where
  "alts [] = OneOf []"
| "alts [r] = r"
| "alts (r # rs) = Alt r (alts rs)"

text \<open>An alternation of literals, such as \<^verbatim>\<open>BKN|OVC\<close>.\<close>

definition lits :: "string list \<Rightarrow> regex" where
  "lits ws = alts (map Lit ws)"

fun in_class :: "cclass \<Rightarrow> char \<Rightarrow> bool" where
  "in_class Digit c = is_digit c"
| "in_class Space c = is_space c"

text \<open>
  A matcher state is the character before the cursor (none at the start of the string),
  the text from the cursor on, and the captures made so far.
\<close>

type_synonym captures = "nat \<Rightarrow> string option"
type_synonym mstate = "char option \<times> string \<times> captures"

fun word_before :: "char option \<Rightarrow> bool" where
  "word_before None = False"
| "word_before (Some c) = is_word c"

fun word_at :: "string \<Rightarrow> bool" where
  "word_at [] = False"
| "word_at (c # cs) = is_word c"

definition at_boundary :: "char option \<Rightarrow> string \<Rightarrow> bool" where
  "at_boundary p r = (word_before p \<noteq> word_at r)"

fun last_char :: "char option \<Rightarrow> string \<Rightarrow> char option" where
  "last_char p [] = p"
| "last_char p (x # xs) = last_char (Some x) xs"

fun consume :: "nat \<Rightarrow> mstate \<Rightarrow> mstate" where
  "consume n (p, r, c) = (last_char p (take n r), drop n r, c)"

text \<open>
  \<open>rmatch re st\<close> lists every way \<open>re\<close> matches at the cursor of \<open>st\<close>, in the order in
  which a backtracking matcher tries them: the head of the list is the match JavaScript
  reports, the rest is what it would fall back to.
\<close>

fun rmatch :: "regex \<Rightarrow> mstate \<Rightarrow> mstate list" where
  "rmatch (Lit w) (p, r, c) =
     (if take (length w) r = w then [consume (length w) (p, r, c)] else [])"
| "rmatch (OneOf cs) (p, r, c) =
     (case r of [] \<Rightarrow> [] | x # xs \<Rightarrow> if x \<in> set cs then [(Some x, xs, c)] else [])"
| "rmatch (Rep k lo hi) (p, r, c) =
     (let n = length (takeWhile (in_class k) r);
          m = (case hi of None \<Rightarrow> n | Some h \<Rightarrow> min h n)
      in map (\<lambda>j. consume j (p, r, c)) (rev [lo ..< Suc m]))"
| "rmatch (Seq a b) st = concat (map (rmatch b) (rmatch a st))"
| "rmatch (Alt a b) st = rmatch a st @ rmatch b st"
| "rmatch (Opt a) st = rmatch a st @ [st]"
| "rmatch (Grp n a) (p, r, c) =
     map (\<lambda>(p', r', c'). (p', r', c'(n \<mapsto> take (length r - length r') r))) (rmatch a (p, r, c))"
| "rmatch WordB (p, r, c) = (if at_boundary p r then [(p, r, c)] else [])"

text \<open>
  \<open>search\<close> is the scan of \<open>RegExp.prototype.exec\<close> from a cursor: the leftmost position
  at which the expression matches, and there the first match in backtracking order.
\<close>

fun first_of :: "'a list \<Rightarrow> 'a option" where
  "first_of [] = None"
| "first_of (x # xs) = Some x"

fun search :: "regex \<Rightarrow> char option \<Rightarrow> string \<Rightarrow> mstate option" where
  "search re p [] = first_of (rmatch re (p, [], Map.empty))"
| "search re p (x # xs) =
     (case first_of (rmatch re (p, x # xs, Map.empty)) of
        None \<Rightarrow> search re (Some x) xs
      | Some st \<Rightarrow> Some st)"

text \<open>\<open>str.match(re)\<close> without the \<open>g\<close> flag: the captures of the first match, or \<open>null\<close>.\<close>

definition js_match :: "regex \<Rightarrow> string \<Rightarrow> captures option" where
  "js_match re s = map_option (\<lambda>(p, r, c). c) (search re None s)"

text \<open>\<open>re.test(str)\<close>.\<close>

definition js_test :: "regex \<Rightarrow> string \<Rightarrow> bool" where
  "js_test re s = (search re None s \<noteq> None)"

subsection \<open>Every match consumes a piece of the text\<close>

fun min_len :: "regex \<Rightarrow> nat" where
  "min_len (Lit w) = length w"
| "min_len (OneOf cs) = 1"
| "min_len (Rep k lo hi) = lo"
| "min_len (Seq a b) = min_len a + min_len b"
| "min_len (Alt a b) = min (min_len a) (min_len b)"
| "min_len (Opt a) = 0"
| "min_len (Grp n a) = min_len a"
| "min_len WordB = 0"

lemma last_char_append: "last_char p (u @ v) = last_char (last_char p u) v"
  by (induction u arbitrary: p) auto

lemma rmatch_suffix:
  "(p', r', c') \<in> set (rmatch re (p, r, c)) \<Longrightarrow>
     \<exists>u. r = u @ r' \<and> p' = last_char p u \<and> min_len re \<le> length u"
proof (induction re arbitrary: p r c p' r' c')
  case (Lit w)
  then have "take (length w) r = w" and "r' = drop (length w) r"
    and "p' = last_char p (take (length w) r)"
    by (auto split: if_splits)
  then show ?case
    by (metis append_take_drop_id min_len.simps(1) order_refl)
next
  case (OneOf cs)
  then show ?case by (auto split: list.splits if_splits)
next
  case (Rep k lo hi)
  define m where "m = (case hi of None \<Rightarrow> length (takeWhile (in_class k) r)
     | Some h \<Rightarrow> min h (length (takeWhile (in_class k) r)))"
  have "m \<le> length (takeWhile (in_class k) r)"
    by (simp add: m_def split: option.splits)
  moreover from Rep
  have "(p', r', c') \<in> set (map (\<lambda>j. consume j (p, r, c)) (rev [lo ..< Suc m]))"
    by (simp add: Let_def m_def del: upt_Suc consume.simps)
  then obtain j where "lo \<le> j" "j < Suc m" "(p', r', c') = consume j (p, r, c)"
    by (auto simp del: upt_Suc consume.simps)
  ultimately obtain j where j: "lo \<le> j" "j \<le> length (takeWhile (in_class k) r)"
    and st: "(p', r', c') = consume j (p, r, c)"
    by (metis less_Suc_eq_le order_trans)
  have "j \<le> length r"
    using j(2) length_takeWhile_le[of "in_class k" r] by linarith
  then have "length (take j r) = j" by simp
  with st j(1) show ?case
    by (intro exI[of _ "take j r"]) auto
next
  case (Seq a b)
  then obtain p1 r1 c1 where a: "(p1, r1, c1) \<in> set (rmatch a (p, r, c))"
    and b: "(p', r', c') \<in> set (rmatch b (p1, r1, c1))"
    by auto
  from Seq.IH(1)[OF a] obtain u
    where u: "r = u @ r1" "p1 = last_char p u" "min_len a \<le> length u" by blast
  from Seq.IH(2)[OF b] obtain v
    where v: "r1 = v @ r'" "p' = last_char p1 v" "min_len b \<le> length v" by blast
  show ?case
    using u v by (intro exI[of _ "u @ v"]) (simp add: last_char_append)
next
  case (Alt a b)
  then show ?case by fastforce
next
  case (Opt a)
  then show ?case by fastforce
next
  case (Grp n a)
  then show ?case by fastforce
next
  case WordB
  then show ?case by (auto split: if_splits)
qed

lemma first_of_in_set: "first_of xs = Some x \<Longrightarrow> x \<in> set xs"
  by (cases xs) auto

lemma search_in_rmatch:
  "search re p r = Some st \<Longrightarrow>
     \<exists>q t. length t \<le> length r \<and> st \<in> set (rmatch re (q, t, Map.empty))"
proof (induction r arbitrary: p)
  case Nil
  then have "st \<in> set (rmatch re (p, [], Map.empty))"
    by (simp add: first_of_in_set)
  then show ?case by blast
next
  case (Cons x xs)
  show ?case
  proof (cases "first_of (rmatch re (p, x # xs, Map.empty))")
    case None
    with Cons.prems have "search re (Some x) xs = Some st" by simp
    from Cons.IH[OF this] obtain q t
      where "length t \<le> length xs" "st \<in> set (rmatch re (q, t, Map.empty))" by blast
    then have "length t \<le> length (x # xs) \<and> st \<in> set (rmatch re (q, t, Map.empty))"
      by simp
    then show ?thesis by blast
  next
    case (Some y)
    with Cons.prems have "st \<in> set (rmatch re (p, x # xs, Map.empty))"
      by (simp add: first_of_in_set)
    then show ?thesis by blast
  qed
qed

lemma search_progress:
  assumes "search re p r = Some (p', r', c')"
  shows "length r' + min_len re \<le> length r"
proof -
  from search_in_rmatch[OF assms] obtain q t
    where t: "length t \<le> length r" and m: "(p', r', c') \<in> set (rmatch re (q, t, Map.empty))"
    by blast
  from rmatch_suffix[OF m] obtain u where "t = u @ r'" "min_len re \<le> length u"
    by blast
  then have "length r' + min_len re \<le> length t" by simp
  with t show ?thesis by linarith
qed

subsection \<open>Matches as a relation\<close>

text \<open>
  What it means for a state to be among the matches of an expression, construct by
  construct: the declarative reading of \<open>rmatch\<close>, used instead of its equations from
  here on.
\<close>

lemma mem_Lit:
  "st \<in> set (rmatch (Lit w) (p, r, c)) \<longleftrightarrow> (\<exists>r'. r = w @ r' \<and> st = (last_char p w, r', c))"
proof
  assume "st \<in> set (rmatch (Lit w) (p, r, c))"
  then have "take (length w) r = w" "st = (last_char p (take (length w) r), drop (length w) r, c)"
    by (auto split: if_splits)
  then have "r = w @ drop (length w) r \<and> st = (last_char p w, drop (length w) r, c)"
    by (metis append_take_drop_id)
  then show "\<exists>r'. r = w @ r' \<and> st = (last_char p w, r', c)" by blast
next
  assume "\<exists>r'. r = w @ r' \<and> st = (last_char p w, r', c)"
  then show "st \<in> set (rmatch (Lit w) (p, r, c))" by auto
qed

lemma mem_OneOf:
  "st \<in> set (rmatch (OneOf cs) (p, r, c)) \<longleftrightarrow>
     (\<exists>x r'. r = x # r' \<and> x \<in> set cs \<and> st = (Some x, r', c))"
  by (cases r) auto

lemma takeWhile_length_ge:
  "n \<le> length (takeWhile P r) \<longleftrightarrow> n \<le> length r \<and> list_all P (take n r)"
proof (induction r arbitrary: n)
  case Nil
  then show ?case by simp
next
  case (Cons x xs)
  then show ?case by (cases n) auto
qed

lemma mem_Rep:
  "st \<in> set (rmatch (Rep k lo hi) (p, r, c)) \<longleftrightarrow>
     (\<exists>u r'. r = u @ r' \<and> list_all (in_class k) u \<and> lo \<le> length u \<and>
        (case hi of None \<Rightarrow> True | Some h \<Rightarrow> length u \<le> h) \<and> st = (last_char p u, r', c))"
proof
  assume a: "st \<in> set (rmatch (Rep k lo hi) (p, r, c))"
  define m where "m = (case hi of None \<Rightarrow> length (takeWhile (in_class k) r)
     | Some h \<Rightarrow> min h (length (takeWhile (in_class k) r)))"
  from a have "st \<in> set (map (\<lambda>j. consume j (p, r, c)) (rev [lo ..< Suc m]))"
    by (simp add: Let_def m_def del: upt_Suc consume.simps)
  then obtain j where j: "lo \<le> j" "j \<le> m" "st = consume j (p, r, c)"
    by (auto simp del: upt_Suc consume.simps)
  have m1: "m \<le> length (takeWhile (in_class k) r)" by (simp add: m_def split: option.splits)
  have m2: "(case hi of None \<Rightarrow> True | Some h \<Rightarrow> m \<le> h)" by (simp add: m_def split: option.splits)
  from j(2) m1 have "j \<le> length (takeWhile (in_class k) r)" by linarith
  then have jr: "j \<le> length r" "list_all (in_class k) (take j r)"
    by (simp_all add: takeWhile_length_ge)
  have lj: "length (take j r) = j" using jr(1) by simp
  have "(case hi of None \<Rightarrow> True | Some h \<Rightarrow> j \<le> h)"
    using m2 j(2) by (cases hi) auto
  then have "r = take j r @ drop j r \<and> list_all (in_class k) (take j r) \<and> lo \<le> length (take j r) \<and>
        (case hi of None \<Rightarrow> True | Some h \<Rightarrow> length (take j r) \<le> h) \<and>
        st = (last_char p (take j r), drop j r, c)"
    unfolding lj using j(1,3) jr(2) by simp
  then show "\<exists>u r'. r = u @ r' \<and> list_all (in_class k) u \<and> lo \<le> length u \<and>
        (case hi of None \<Rightarrow> True | Some h \<Rightarrow> length u \<le> h) \<and> st = (last_char p u, r', c)"
    by blast
next
  assume "\<exists>u r'. r = u @ r' \<and> list_all (in_class k) u \<and> lo \<le> length u \<and>
        (case hi of None \<Rightarrow> True | Some h \<Rightarrow> length u \<le> h) \<and> st = (last_char p u, r', c)"
  then obtain u r' where u: "r = u @ r'" "list_all (in_class k) u" "lo \<le> length u"
    "(case hi of None \<Rightarrow> True | Some h \<Rightarrow> length u \<le> h)" "st = (last_char p u, r', c)"
    by blast
  define m where "m = (case hi of None \<Rightarrow> length (takeWhile (in_class k) r)
     | Some h \<Rightarrow> min h (length (takeWhile (in_class k) r)))"
  have "length u \<le> length (takeWhile (in_class k) r)"
    using u(1,2) by (simp add: takeWhile_length_ge)
  with u(4) have "length u \<le> m" by (simp add: m_def split: option.splits)
  with u(3) have "length u \<in> set (rev [lo ..< Suc m])" by (simp del: upt_Suc)
  moreover have "consume (length u) (p, r, c) = st" using u(1,5) by simp
  ultimately have "st \<in> (\<lambda>j. consume j (p, r, c)) ` set (rev [lo ..< Suc m])"
    by (metis rev_image_eqI)
  then have "st \<in> set (map (\<lambda>j. consume j (p, r, c)) (rev [lo ..< Suc m]))"
    by (simp only: set_map)
  then show "st \<in> set (rmatch (Rep k lo hi) (p, r, c))"
    by (simp add: Let_def m_def del: upt_Suc consume.simps)
qed

lemma mem_Seq:
  "st \<in> set (rmatch (Seq a b) s0) \<longleftrightarrow> (\<exists>s1. s1 \<in> set (rmatch a s0) \<and> st \<in> set (rmatch b s1))"
  by auto

lemma mem_Alt:
  "st \<in> set (rmatch (Alt a b) s0) \<longleftrightarrow> st \<in> set (rmatch a s0) \<or> st \<in> set (rmatch b s0)"
  by auto

lemma mem_Opt:
  "st \<in> set (rmatch (Opt a) s0) \<longleftrightarrow> st \<in> set (rmatch a s0) \<or> st = s0"
  by auto

lemma mem_Grp:
  "st \<in> set (rmatch (Grp n a) (p, r, c)) \<longleftrightarrow>
     (\<exists>p' r' c'. (p', r', c') \<in> set (rmatch a (p, r, c)) \<and>
        st = (p', r', c'(n \<mapsto> take (length r - length r') r)))"
proof
  assume "st \<in> set (rmatch (Grp n a) (p, r, c))"
  then obtain x where x: "x \<in> set (rmatch a (p, r, c))"
    "st = (case x of (p', r', c') \<Rightarrow> (p', r', c'(n \<mapsto> take (length r - length r') r)))"
    by auto
  obtain p' r' c' where "x = (p', r', c')" by (cases x) auto
  with x show "\<exists>p' r' c'. (p', r', c') \<in> set (rmatch a (p, r, c)) \<and>
        st = (p', r', c'(n \<mapsto> take (length r - length r') r))" by auto
next
  assume "\<exists>p' r' c'. (p', r', c') \<in> set (rmatch a (p, r, c)) \<and>
        st = (p', r', c'(n \<mapsto> take (length r - length r') r))"
  then obtain p' r' c' where x: "(p', r', c') \<in> set (rmatch a (p, r, c))"
    "st = (p', r', c'(n \<mapsto> take (length r - length r') r))" by blast
  have "st \<in> (\<lambda>(p', r', c'). (p', r', c'(n \<mapsto> take (length r - length r') r))) `
     set (rmatch a (p, r, c))"
    using x by (intro rev_image_eqI[of "(p', r', c')"]) auto
  then show "st \<in> set (rmatch (Grp n a) (p, r, c))" by simp
qed

lemma mem_WordB:
  "st \<in> set (rmatch WordB (p, r, c)) \<longleftrightarrow> at_boundary p r \<and> st = (p, r, c)"
  by auto

lemma mem_alts_lits:
  "st \<in> set (rmatch (alts (map Lit ws)) (p, r, c)) \<longleftrightarrow>
     (\<exists>w r'. w \<in> set ws \<and> r = w @ r' \<and> st = (last_char p w, r', c))"
proof (induction ws rule: induct_list012)
  case 1
  then show ?case by (simp add: mem_OneOf del: rmatch.simps)
next
  case (2 x)
  then show ?case by (simp add: mem_Lit del: rmatch.simps)
next
  case (3 x y zs)
  have "st \<in> set (rmatch (alts (map Lit (x # y # zs))) (p, r, c)) \<longleftrightarrow>
        st \<in> set (rmatch (Lit x) (p, r, c)) \<or> st \<in> set (rmatch (alts (map Lit (y # zs))) (p, r, c))"
    by (simp add: mem_Alt del: rmatch.simps)
  then show ?case unfolding 3 mem_Lit by auto
qed

lemma mem_lits:
  "st \<in> set (rmatch (lits ws) (p, r, c)) \<longleftrightarrow>
     (\<exists>w r'. w \<in> set ws \<and> r = w @ r' \<and> st = (last_char p w, r', c))"
  unfolding lits_def by (rule mem_alts_lits)

lemma mem_Grp_lits:
  "st \<in> set (rmatch (Grp n (lits ws)) (p, r, c)) \<longleftrightarrow>
     (\<exists>w r'. w \<in> set ws \<and> r = w @ r' \<and> st = (last_char p w, r', c(n \<mapsto> w)))"
  unfolding mem_Grp mem_lits by auto

lemma mem_Grp_Rep:
  "st \<in> set (rmatch (Grp n (Rep k lo hi)) (p, r, c)) \<longleftrightarrow>
     (\<exists>u r'. r = u @ r' \<and> list_all (in_class k) u \<and> lo \<le> length u \<and>
        (case hi of None \<Rightarrow> True | Some h \<Rightarrow> length u \<le> h) \<and>
        st = (last_char p u, r', c(n \<mapsto> u)))"
  unfolding mem_Grp mem_Rep by auto

lemmas mem_simps = mem_Lit mem_OneOf mem_Rep mem_Seq mem_Alt mem_Opt mem_Grp mem_WordB mem_lits

lemma first_of_unique:
  assumes "y \<in> set xs" "\<And>x. x \<in> set xs \<Longrightarrow> x = y"
  shows "first_of xs = Some y"
proof (cases xs)
  case Nil
  with assms(1) show ?thesis by simp
next
  case (Cons a as)
  then have "a = y" using assms(2)[of a] by simp
  with Cons show ?thesis by simp
qed

lemma first_of_none: "set xs = {} \<Longrightarrow> first_of xs = None"
  by simp

declare rmatch.simps [simp del]

lemma in_class_Digit [simp]: "in_class Digit = is_digit"
  by (rule ext) simp

lemma in_class_Space [simp]: "in_class Space = is_space"
  by (rule ext) simp

lemma last_char_nonempty [simp]: "u \<noteq> [] \<Longrightarrow> last_char p u = Some (last u)"
  by (induction u arbitrary: p) auto


subsection \<open>Words\<close>

text \<open>
  The words of a text are its maximal runs of word characters. An expression of the form
  \<open>\b...\b\<close> whose body matches word characters only can match nothing but a whole word;
  for such an expression the scan of \<open>search\<close> is a scan of the list of words.
\<close>

function words_of :: "string \<Rightarrow> string list" where
  "words_of [] = []"
| "words_of (x # xs) =
     (if is_word x then takeWhile is_word (x # xs) # words_of (dropWhile is_word xs)
      else words_of xs)"
  by pat_completeness auto
termination
  by (relation "measure length") (auto simp: less_Suc_eq_le length_dropWhile_le)

definition words_from :: "char option \<Rightarrow> string \<Rightarrow> string list" where
  "words_from p r = (if word_before p then words_of (dropWhile is_word r) else words_of r)"

definition word_token :: "regex \<Rightarrow> (string \<Rightarrow> captures option) \<Rightarrow> bool" where
  "word_token re tok =
     (\<forall>p r. first_of (rmatch re (p, r, Map.empty)) =
        (if \<not> word_before p \<and> word_at r
         then map_option (\<lambda>c. (Some (last (takeWhile is_word r)), dropWhile is_word r, c))
                (tok (takeWhile is_word r))
         else None))"

lemma words_of_dropWhile_idem: "\<not> word_at r \<Longrightarrow> words_of (dropWhile is_word r) = words_of r"
  by (cases r) auto

lemma not_word_at_dropWhile: "\<not> word_at (dropWhile is_word r)"
  by (induction r) auto

lemma words_from_step:
  assumes "word_token re tok" "first_of (rmatch re (p, x # xs, Map.empty)) = None"
  shows "words_from p (x # xs) = words_from (Some x) xs \<or>
         (\<exists>w. tok w = None \<and> words_from p (x # xs) = w # words_from (Some x) xs)"
proof (cases "word_before p")
  case True
  then show ?thesis by (auto simp: words_from_def)
next
  case False
  show ?thesis
  proof (cases "is_word x")
    case True
    with False assms have "tok (takeWhile is_word (x # xs)) = None"
      unfolding word_token_def by (metis (no_types, lifting) option.map_disc_iff word_at.simps(2))
    with True False show ?thesis by (auto simp: words_from_def)
  next
    case F2: False
    with False show ?thesis by (auto simp: words_from_def)
  qed
qed

lemma words_from_hit:
  assumes "word_token re tok" "first_of (rmatch re (p, r, Map.empty)) = Some (p', r', c)"
  shows "\<exists>w. tok w = Some c \<and> words_from p r = w # words_from p' r' \<and> p' = Some (last w)
     \<and> w \<noteq> [] \<and> r = w @ r' \<and> word_before p'"
proof -
  from assms have nb: "\<not> word_before p" and wa: "word_at r"
    unfolding word_token_def by (metis option.distinct(1))+
  with assms have t: "tok (takeWhile is_word r) = Some c" and p': "p' = Some (last (takeWhile is_word r))"
    and r': "r' = dropWhile is_word r"
    unfolding word_token_def by auto
  from wa obtain x xs where r: "r = x # xs" "is_word x" by (cases r) auto
  have ne: "takeWhile is_word r \<noteq> []" using r by simp
  then have "last (takeWhile is_word r) \<in> set (takeWhile is_word r)" by simp
  then have lw: "is_word (last (takeWhile is_word r))" by (meson set_takeWhileD)
  have "words_from p r = takeWhile is_word r # words_of (dropWhile is_word xs)"
    using nb r by (simp add: words_from_def)
  moreover have "words_from p' r' = words_of (dropWhile is_word xs)"
    using p' r' lw r by (simp add: words_from_def)
  ultimately show ?thesis using t p' r' ne lw by (intro exI[of _ "takeWhile is_word r"]) auto
qed

lemma search_words_none:
  assumes "word_token re tok"
  shows "search re p r = None \<Longrightarrow> list_all (\<lambda>w. tok w = None) (words_from p r)"
proof (induction r arbitrary: p)
  case Nil
  then show ?case by (simp add: words_from_def)
next
  case (Cons x xs)
  then have f: "first_of (rmatch re (p, x # xs, Map.empty)) = None"
    and s: "search re (Some x) xs = None"
    by (auto split: option.splits)
  from words_from_step[OF assms f] Cons.IH[OF s] show ?case by auto
qed

lemma search_words_some:
  assumes "word_token re tok"
  shows "search re p r = Some (p', r', c) \<Longrightarrow>
     \<exists>ws w. words_from p r = ws @ w # words_from p' r' \<and> list_all (\<lambda>v. tok v = None) ws \<and>
        tok w = Some c \<and> word_before p'"
proof (induction r arbitrary: p)
  case Nil
  then have "first_of (rmatch re (p, [], Map.empty)) = Some (p', r', c)" by simp
  from words_from_hit[OF assms this] obtain w
    where "tok w = Some c" "words_from p [] = w # words_from p' r'" "word_before p'" by blast
  then have "words_from p [] = [] @ w # words_from p' r' \<and> list_all (\<lambda>v. tok v = None) [] \<and>
        tok w = Some c \<and> word_before p'" by simp
  then show ?case by blast
next
  case (Cons x xs)
  show ?case
  proof (cases "first_of (rmatch re (p, x # xs, Map.empty))")
    case None
    with Cons.prems have s: "search re (Some x) xs = Some (p', r', c)" by simp
    from Cons.IH[OF s] obtain ws w where
      ws: "words_from (Some x) xs = ws @ w # words_from p' r'" "list_all (\<lambda>v. tok v = None) ws"
        "tok w = Some c" "word_before p'" by blast
    from words_from_step[OF assms None] show ?thesis
    proof
      assume "words_from p (x # xs) = words_from (Some x) xs"
      with ws show ?thesis by metis
    next
      assume "\<exists>w. tok w = None \<and> words_from p (x # xs) = w # words_from (Some x) xs"
      then obtain v where v: "tok v = None" "words_from p (x # xs) = v # words_from (Some x) xs" by blast
      with ws have "words_from p (x # xs) = (v # ws) @ w # words_from p' r'"
        "list_all (\<lambda>v. tok v = None) (v # ws)" by auto
      with ws(3,4) show ?thesis by blast
    qed
  next
    case (Some st)
    with Cons.prems have "first_of (rmatch re (p, x # xs, Map.empty)) = Some (p', r', c)" by simp
    from words_from_hit[OF assms this] obtain w
      where "tok w = Some c" "words_from p (x # xs) = w # words_from p' r'" "word_before p'" by blast
    then have "words_from p (x # xs) = [] @ w # words_from p' r' \<and>
        list_all (\<lambda>v. tok v = None) [] \<and> tok w = Some c \<and> word_before p'" by simp
    then show ?thesis by blast
  qed
qed




lemma takeWhile_word_run:
  assumes "list_all is_word w" "\<not> word_at r'"
  shows "takeWhile is_word (w @ r') = w \<and> dropWhile is_word (w @ r') = r'"
proof -
  have a: "\<forall>x\<in>set w. is_word x" using assms(1) by (simp add: list_all_iff)
  have b: "takeWhile is_word r' = []" "dropWhile is_word r' = r'"
    using assms(2) by (cases r'; simp)+
  show ?thesis using a b by (simp add: takeWhile_append2 dropWhile_append2)
qed

lemma word_tokenI:
  assumes mem: "\<And>p r st. st \<in> set (rmatch re (p, r, Map.empty)) \<longleftrightarrow>
      (\<exists>w r' c. r = w @ r' \<and> tok w = Some c \<and> at_boundary p r \<and>
         at_boundary (Some (last w)) r' \<and> st = (Some (last w), r', c))"
    and wordy: "\<And>w c. tok w = Some c \<Longrightarrow> w \<noteq> [] \<and> list_all is_word w"
  shows "word_token re tok"
  unfolding word_token_def
proof (intro allI)
  fix p r
  let ?w = "takeWhile is_word r" and ?t = "dropWhile is_word r"
  have decomp: "\<exists>c. r = w @ r' \<and> tok w = Some c \<and> at_boundary p r \<and> at_boundary (Some (last w)) r'
      \<Longrightarrow> \<not> word_before p \<and> word_at r \<and> w = ?w \<and> r' = ?t" for w r'
  proof -
    assume "\<exists>c. r = w @ r' \<and> tok w = Some c \<and> at_boundary p r \<and> at_boundary (Some (last w)) r'"
    then obtain c where h: "r = w @ r'" "tok w = Some c" "at_boundary p r"
      "at_boundary (Some (last w)) r'" by blast
    from wordy[OF h(2)] have w: "w \<noteq> []" "list_all is_word w" by auto
    then have "is_word (last w)" by (simp add: list_all_iff)
    with h(4) have nr: "\<not> word_at r'" by (simp add: at_boundary_def)
    from w obtain x xs where "w = x # xs" "is_word x" by (cases w) auto
    with h(1) have wa: "word_at r" by simp
    with h(3) have "\<not> word_before p" by (simp add: at_boundary_def)
    with wa takeWhile_word_run[OF w(2) nr] h(1) show ?thesis by simp
  qed
  show "first_of (rmatch re (p, r, Map.empty)) =
        (if \<not> word_before p \<and> word_at r
         then map_option (\<lambda>c. (Some (last ?w), ?t, c)) (tok ?w) else None)"
  proof (cases "\<not> word_before p \<and> word_at r \<and> tok ?w \<noteq> None")
    case True
    then obtain c where c: "tok ?w = Some c" by auto
    from wordy[OF c] have w: "?w \<noteq> []" "list_all is_word ?w" by auto
    then have lw: "is_word (last ?w)" by (simp add: list_all_iff)
    have nt: "\<not> word_at ?t" by (rule not_word_at_dropWhile)
    have "(Some (last ?w), ?t, c) \<in> set (rmatch re (p, r, Map.empty))"
      unfolding mem using True c lw nt
      by (intro exI[of _ ?w] exI[of _ ?t] exI[of _ c]) (simp add: at_boundary_def)
    moreover have "st = (Some (last ?w), ?t, c)" if "st \<in> set (rmatch re (p, r, Map.empty))" for st
    proof -
      from that obtain w r' c' where h: "r = w @ r'" "tok w = Some c'" "at_boundary p r"
        "at_boundary (Some (last w)) r'" "st = (Some (last w), r', c')"
        unfolding mem by blast
      then have "w = ?w \<and> r' = ?t" using decomp[of w r'] by blast
      with h(2,5) c show ?thesis by simp
    qed
    ultimately have "first_of (rmatch re (p, r, Map.empty)) = Some (Some (last ?w), ?t, c)"
      by (rule first_of_unique)
    with True c show ?thesis by simp
  next
    case False
    have "rmatch re (p, r, Map.empty) = []"
    proof (cases "rmatch re (p, r, Map.empty)")
      case Nil
      then show ?thesis .
    next
      case (Cons st sts)
      then have "st \<in> set (rmatch re (p, r, Map.empty))" by simp
      then obtain w r' c' where h: "r = w @ r'" "tok w = Some c'" "at_boundary p r"
        "at_boundary (Some (last w)) r'"
        unfolding mem by blast
      then have "\<not> word_before p \<and> word_at r \<and> w = ?w" using decomp[of w r'] by blast
      with h(2) False show ?thesis by simp
    qed
    then have "first_of (rmatch re (p, r, Map.empty)) = None" by simp
    with False show ?thesis by auto
  qed
qed

section \<open>Numbers\<close>

text \<open>
  A JavaScript number is an IEEE 754 double. A finite double is modelled by its exact
  value, a rational; the three special values are constructors. Every operation computes
  the exact result and rounds it to the nearest double, ties to the even significand
  (\<open>fl\<close> below), as the standard prescribes; a result of magnitude \<open>2\<^sup>1\<^sup>0\<^sup>2\<^sup>4\<close> or more
  after rounding is an infinity. Comparison on the special values follows IEEE 754 (a
  comparison with \<open>NaN\<close> is false, a nonzero number divided by zero is an infinity, zero
  divided by zero is \<open>NaN\<close>). The sign of zero is not modelled: no output of the server
  shows it.

  Two types are used. The results of \<open>parseInt\<close>, their products with a constant and their
  negations are integers or special values: type \<open>jsint\<close>. The results of a division are
  of type \<open>jsnum\<close>.
\<close>

datatype jsint = IntV int | IntNaN | IntInfinity | IntNegInfinity

datatype jsnum = Num rat | PosInf | NegInf | NaN

text \<open>The number of binary digits of a positive integer.\<close>

function bitlen :: "int \<Rightarrow> int" where
  "bitlen n = (if n \<le> 0 then 0 else 1 + bitlen (n div 2))"
  by pat_completeness auto
termination
  by (relation "measure nat") auto

declare bitlen.simps [simp del]

definition pow2 :: "int \<Rightarrow> rat" where
  "pow2 k = (if 0 \<le> k then 2 ^ nat k else 1 / 2 ^ nat (- k))"

text \<open>For \<open>q > 0\<close>, the integer \<open>l\<close> with \<open>2\<^sup>l \<le> q < 2\<^sup>l\<^sup>+\<^sup>1\<close>.\<close>

definition ilog2 :: "rat \<Rightarrow> int" where
  "ilog2 q = (if 1 \<le> q then bitlen \<lfloor>q\<rfloor> - 1 else - bitlen (\<lceil>1 / q\<rceil> - 1))"

definition round_even :: "rat \<Rightarrow> int" where
  "round_even x =
     (let f = \<lfloor>x\<rfloor>; d = x - of_int f
      in if 1 / 2 < d \<or> (d = 1 / 2 \<and> odd f) then f + 1 else f)"

text \<open>
  The double nearest to a positive rational: a significand \<open>m\<close> of at most 53 bits and an
  exponent \<open>e\<close> of at least \<open>-1074\<close> (below the normal range the spacing stays
  \<open>2\<^sup>-\<^sup>1\<^sup>0\<^sup>7\<^sup>4\<close>); the largest double is \<open>(2\<^sup>5\<^sup>3 - 1) * 2\<^sup>9\<^sup>7\<^sup>1\<close>.
\<close>

definition fl_pos :: "rat \<Rightarrow> jsnum" where
  "fl_pos q =
     (let e = max (ilog2 q - 52) (- 1074);
          m = round_even (q / pow2 e)
      in if 971 < e \<or> (e = 971 \<and> m = 9007199254740992) then PosInf
         else Num (of_int m * pow2 e))"

fun js_neg :: "jsnum \<Rightarrow> jsnum" where
  "js_neg (Num a) = Num (- a)"
| "js_neg PosInf = NegInf"
| "js_neg NegInf = PosInf"
| "js_neg NaN = NaN"

definition fl :: "rat \<Rightarrow> jsnum" where
  "fl q = (if q = 0 then Num 0 else if 0 < q then fl_pos q else js_neg (fl_pos (- q)))"

fun to_num :: "jsint \<Rightarrow> jsnum" where
  "to_num (IntV i) = Num (of_int i)"
| "to_num IntNaN = NaN"
| "to_num IntInfinity = PosInf"
| "to_num IntNegInfinity = NegInf"

fun to_int :: "jsnum \<Rightarrow> jsint" where
  "to_int (Num q) = IntV \<lfloor>q\<rfloor>"
| "to_int PosInf = IntInfinity"
| "to_int NegInf = IntNegInfinity"
| "to_int NaN = IntNaN"

text \<open>The double nearest to an integer; it is an integer again, or an infinity.\<close>

definition fl_int :: "int \<Rightarrow> jsint" where
  "fl_int i = to_int (fl (of_int i))"

text \<open>Integers of magnitude below \<open>2\<^sup>5\<^sup>3\<close> are doubles.\<close>

lemma bitlen_le: "n < 2 ^ k \<Longrightarrow> bitlen n \<le> int k"
proof (induction k arbitrary: n)
  case 0
  then show ?case by (simp add: bitlen.simps)
next
  case (Suc k)
  show ?case
  proof (cases "n \<le> 0")
    case True
    then show ?thesis by (simp add: bitlen.simps)
  next
    case False
    from Suc.prems have "n div 2 < 2 ^ k" by simp
    from Suc.IH[OF this] False show ?thesis by (subst bitlen.simps) simp
  qed
qed

lemma bitlen_pos: "0 < n \<Longrightarrow> 0 < bitlen n"
proof -
  assume a: "0 < n"
  have "0 \<le> bitlen m" for m
    by (induction m rule: bitlen.induct) (subst bitlen.simps, simp)
  from this[of "n div 2"] a show ?thesis by (subst bitlen.simps) simp
qed

lemma round_even_int: "round_even (of_int z) = z"
  by (simp add: round_even_def)

lemma fl_pos_exact:
  assumes "0 < i" "i < 2 ^ 53"
  shows "fl_pos (of_int i) = Num (of_int i)"
proof -
  let ?b = "bitlen i"
  from bitlen_le[OF assms(2)] have b53: "?b \<le> 53" by simp
  from bitlen_pos[OF assms(1)] have b1: "0 < ?b" .
  have q1: "(1::rat) \<le> of_int i" using assms(1) by simp
  have lg: "ilog2 (of_int i) = ?b - 1" using q1 by (simp add: ilog2_def)
  define k where "k = nat (53 - ?b)"
  have e: "max (ilog2 (of_int i) - 52) (- 1074) = - int k"
    unfolding lg k_def using b53 b1 by simp
  have p: "pow2 (- int k) = 1 / 2 ^ k" by (cases "k = 0") (simp_all add: pow2_def)
  have "of_int i / pow2 (- int k) = (of_int (i * 2 ^ k) :: rat)" unfolding p by simp
  then have m: "round_even (of_int i / pow2 (- int k)) = i * 2 ^ k"
    by (simp only: round_even_int)
  have v: "(of_int (i * 2 ^ k) :: rat) * pow2 (- int k) = of_int i" unfolding p by simp
  have k53: "k \<le> 52" unfolding k_def using b1 by simp
  show ?thesis
    unfolding fl_pos_def Let_def e m v using k53 by simp
qed

lemma fl_exact:
  assumes "\<bar>i\<bar> < 2 ^ 53"
  shows "fl (of_int i) = Num (of_int i)"
proof -
  consider "i = 0" | "0 < i" | "i < 0" by linarith
  then show ?thesis
  proof cases
    case 1
    then show ?thesis by (simp add: fl_def)
  next
    case 2
    with assms fl_pos_exact[of i] show ?thesis by (simp add: fl_def)
  next
    case 3
    with assms fl_pos_exact[of "- i"] show ?thesis by (simp add: fl_def)
  qed
qed

lemma fl_int_exact: "\<bar>i\<bar> < 2 ^ 53 \<Longrightarrow> fl_int i = IntV i"
  by (simp add: fl_int_def fl_exact)

lemma fl_int_code [code]:
  "fl_int i = (if \<bar>i\<bar> < 9007199254740992 then IntV i else to_int (fl (of_int i)))"
  using fl_int_exact[of i] by (simp add: fl_int_def)

text \<open>Negation, the product with an integer constant that is a double, and comparison.\<close>

fun int_neg :: "jsint \<Rightarrow> jsint" where
  "int_neg (IntV i) = IntV (- i)"
| "int_neg IntNaN = IntNaN"
| "int_neg IntInfinity = IntNegInfinity"
| "int_neg IntNegInfinity = IntInfinity"

fun int_times :: "jsint \<Rightarrow> int \<Rightarrow> jsint" where
  "int_times (IntV i) k = fl_int (i * k)"
| "int_times IntNaN k = IntNaN"
| "int_times IntInfinity k = (if 0 < k then IntInfinity else if k < 0 then IntNegInfinity else IntNaN)"
| "int_times IntNegInfinity k = (if 0 < k then IntNegInfinity else if k < 0 then IntInfinity else IntNaN)"

fun js_lt :: "jsnum \<Rightarrow> jsnum \<Rightarrow> bool" where
  "js_lt NaN _ = False"
| "js_lt _ NaN = False"
| "js_lt (Num a) (Num b) = (a < b)"
| "js_lt PosInf _ = False"
| "js_lt _ PosInf = True"
| "js_lt _ NegInf = False"
| "js_lt NegInf _ = True"

fun js_le :: "jsnum \<Rightarrow> jsnum \<Rightarrow> bool" where
  "js_le NaN _ = False"
| "js_le _ NaN = False"
| "js_le a b = (a = b \<or> js_lt a b)"

fun int_lt :: "jsint \<Rightarrow> jsint \<Rightarrow> bool" where
  "int_lt (IntV a) (IntV b) = (a < b)"
| "int_lt a b = js_lt (to_num a) (to_num b)"

fun int_le :: "jsint \<Rightarrow> jsint \<Rightarrow> bool" where
  "int_le (IntV a) (IntV b) = (a \<le> b)"
| "int_le a b = js_le (to_num a) (to_num b)"

fun js_add :: "jsnum \<Rightarrow> jsnum \<Rightarrow> jsnum" where
  "js_add NaN _ = NaN"
| "js_add _ NaN = NaN"
| "js_add (Num a) (Num b) = fl (a + b)"
| "js_add PosInf NegInf = NaN"
| "js_add NegInf PosInf = NaN"
| "js_add PosInf _ = PosInf"
| "js_add NegInf _ = NegInf"
| "js_add (Num a) b = b"

fun js_div :: "jsnum \<Rightarrow> jsnum \<Rightarrow> jsnum" where
  "js_div NaN _ = NaN"
| "js_div _ NaN = NaN"
| "js_div (Num a) (Num b) =
     (if b = 0 then (if a = 0 then NaN else if a < 0 then NegInf else PosInf)
      else fl (a / b))"
| "js_div (Num a) _ = Num 0"
| "js_div PosInf (Num b) = (if b < 0 then NegInf else PosInf)"
| "js_div NegInf (Num b) = (if b < 0 then PosInf else NegInf)"
| "js_div _ _ = NaN"

text \<open>
  \<open>parseInt\<close> on the strings that reach it here, capture groups of digits (and the text
  \<open>undefined\<close> of a group that took no part): the double nearest to the value of the
  leading decimal digits, \<open>NaN\<close> when there is none. Leading white space, a sign and the
  prefix \<open>0x\<close> are not modelled; no capture group of the source can hold them. Beyond twenty
  significant digits the language lets an implementation read the further digits as
  zeros; the model is the correctly rounded value, which is what Node.js computes.
\<close>

definition digit_val :: "char \<Rightarrow> nat" where
  "digit_val c = code c - 48"

definition digits_val :: "string \<Rightarrow> nat" where
  "digits_val ds = foldl (\<lambda>a c. 10 * a + digit_val c) 0 ds"

definition digits_int :: "string \<Rightarrow> int" where
  "digits_int ds = foldl (\<lambda>a c. 10 * a + int (digit_val c)) 0 ds"

definition parseInt :: "string \<Rightarrow> jsint" where
  "parseInt s =
     (let ds = takeWhile is_digit s in if ds = [] then IntNaN else fl_int (digits_int ds))"

lemma digits_int_val: "digits_int ds = int (digits_val ds)"
proof -
  let ?F = "\<lambda>a c. 10 * a + int (digit_val c)" and ?G = "\<lambda>a c. 10 * a + digit_val c"
  have "foldl ?F (int k) ds = int (foldl ?G k ds)" for k
  proof (induction ds arbitrary: k)
    case Nil
    show ?case by simp
  next
    case (Cons c cs)
    have "foldl ?F (int k) (c # cs) = foldl ?F (int (10 * k + digit_val c)) cs" by simp
    also have "\<dots> = int (foldl ?G (10 * k + digit_val c) cs)" by (rule Cons.IH)
    finally show ?case by simp
  qed
  from this[of 0] show ?thesis by (simp add: digits_int_def digits_val_def)
qed

lemma digits_val_bound: "list_all is_digit ds \<Longrightarrow> digits_val ds < 10 ^ length ds"
proof -
  assume a: "list_all is_digit ds"
  have "list_all is_digit ds \<Longrightarrow> k < 10 ^ n \<Longrightarrow>
        foldl (\<lambda>a c. 10 * a + digit_val c) k ds < 10 ^ (n + length ds)" for k n
  proof (induction ds arbitrary: k n)
    case Nil
    then show ?case by simp
  next
    case (Cons c cs)
    then have "digit_val c \<le> 9" by (auto simp: is_digit_def digit_val_def)
    with Cons.prems(2) have "10 * k + digit_val c < 10 ^ Suc n" by simp
    from Cons.IH[OF _ this] Cons.prems(1) show ?case by simp
  qed
  from this[OF a, of 0 0] show ?thesis by (simp add: digits_val_def)
qed

text \<open>
  A capture read as a string, as in \<open>parseInt(m[1])\<close>, a property key or a template
  literal: a group that took no part in the match is \<open>undefined\<close> and converts to that word.
\<close>

definition grp :: "captures \<Rightarrow> nat \<Rightarrow> string" where
  "grp m k = (case m k of None \<Rightarrow> ''undefined'' | Some t \<Rightarrow> t)"

section \<open>Flight category helpers\<close>

subsection \<open>parseVisibility\<close>

text \<open>\<^verbatim>\<open>/\bM\d+\/\d+SM\b/\<close>\<close>

definition visLessRe :: regex where
  "visLessRe =
     seqs [WordB, Lit ''M'', Rep Digit 1 None, Lit ''/'', Rep Digit 1 None, Lit ''SM'', WordB]"

text \<open>\<^verbatim>\<open>/\b(\d+)\s+(\d+)\/(\d+)SM\b/\<close>\<close>

definition mixedRe :: regex where
  "mixedRe =
     seqs [WordB, Grp 1 (Rep Digit 1 None), Rep Space 1 None, Grp 2 (Rep Digit 1 None),
           Lit ''/'', Grp 3 (Rep Digit 1 None), Lit ''SM'', WordB]"

text \<open>\<^verbatim>\<open>/\b(\d+)\/(\d+)SM\b/\<close>\<close>

definition fracRe :: regex where
  "fracRe =
     seqs [WordB, Grp 1 (Rep Digit 1 None), Lit ''/'', Grp 2 (Rep Digit 1 None), Lit ''SM'', WordB]"

text \<open>\<^verbatim>\<open>/\b(\d+)SM\b/\<close>\<close>

definition wholeRe :: regex where
  "wholeRe = seqs [WordB, Grp 1 (Rep Digit 1 None), Lit ''SM'', WordB]"

text \<open>The result \<open>None\<close> is the \<open>null\<close> of the source.\<close>

definition parseVisibility :: "string \<Rightarrow> jsnum option" where
  "parseVisibility metar =
     (if js_test visLessRe metar then Some (Num 0)
      else case js_match mixedRe metar of
        Some mixedMatch \<Rightarrow>
          Some (js_add (to_num (parseInt (grp mixedMatch 1)))
                  (js_div (to_num (parseInt (grp mixedMatch 2)))
                          (to_num (parseInt (grp mixedMatch 3)))))
      | None \<Rightarrow>
       (case js_match fracRe metar of
          Some fracMatch \<Rightarrow>
            Some (js_div (to_num (parseInt (grp fracMatch 1)))
                         (to_num (parseInt (grp fracMatch 2))))
        | None \<Rightarrow>
         (case js_match wholeRe metar of
            Some wholeMatch \<Rightarrow> Some (to_num (parseInt (grp wholeMatch 1)))
          | None \<Rightarrow> None)))"

subsection \<open>parseCeiling\<close>

text \<open>\<^verbatim>\<open>/\b(BKN|OVC)(\d{3})\b/g\<close>\<close>

definition layerRe :: regex where
  "layerRe =
     seqs [WordB, Grp 1 (lits [''BKN'', ''OVC'']), Grp 2 (Rep Digit 3 (Some 3)), WordB]"

lemma min_len_layerRe: "min_len layerRe = 6"
  by (simp add: layerRe_def lits_def)

text \<open>
  The loop \<open>while ((match = layerRe.exec(metar)) !== null)\<close>: each search starts where the
  previous match ended, with \<open>lowestFt\<close> carried along. It ends because a match of
  \<open>layerRe\<close> consumes six characters.
\<close>

function ceil_loop :: "char option \<Rightarrow> string \<Rightarrow> jsint option \<Rightarrow> jsint option" where
  "ceil_loop p r lowestFt =
     (case search layerRe p r of
        None \<Rightarrow> lowestFt
      | Some (p', r', match) \<Rightarrow>
          (let ft = int_times (parseInt (grp match 2)) 100
           in ceil_loop p' r'
                (case lowestFt of
                   None \<Rightarrow> Some ft
                 | Some l \<Rightarrow> if int_lt ft l then Some ft else lowestFt)))"
  by pat_completeness auto
termination
proof (relation "measure (\<lambda>(p, r, lowestFt). length r)")
  show "wf (measure (\<lambda>(p, r, lowestFt). length r))" by simp
next
  fix p r lowestFt x2 p' y r' match ft
  assume "search layerRe p r = Some x2" and "(p', y) = x2" and "(r', match) = y"
  then have "search layerRe p r = Some (p', r', match)" by simp
  from search_progress[OF this] min_len_layerRe
  show "((p', r', case lowestFt of None \<Rightarrow> Some ft
            | Some l \<Rightarrow> if int_lt ft l then Some ft else lowestFt), p, r, lowestFt)
          \<in> measure (\<lambda>(p, r, lowestFt). length r)"
    by simp
qed

declare ceil_loop.simps [simp del]

definition parseCeiling :: "string \<Rightarrow> jsint option" where
  "parseCeiling metar = ceil_loop None metar None"

subsection \<open>getFlightCategory\<close>

datatype category = LIFR | IFR | MVFR | VFR

record flight =
  category :: category
  visibilitySM :: "jsnum option"
  ceilingFt :: "jsint option"

text \<open>\<open>ceil !== null && ceil < k\<close> and its variants.\<close>

fun ceil_lt :: "jsint option \<Rightarrow> int \<Rightarrow> bool" where
  "ceil_lt None k = False"
| "ceil_lt (Some c) k = int_lt c (IntV k)"

fun ceil_le :: "jsint option \<Rightarrow> int \<Rightarrow> bool" where
  "ceil_le None k = False"
| "ceil_le (Some c) k = int_le c (IntV k)"

fun vis_lt :: "jsnum option \<Rightarrow> rat \<Rightarrow> bool" where
  "vis_lt None k = False"
| "vis_lt (Some v) k = js_lt v (Num k)"

fun vis_le :: "jsnum option \<Rightarrow> rat \<Rightarrow> bool" where
  "vis_le None k = False"
| "vis_le (Some v) k = js_le v (Num k)"

definition getFlightCategory :: "string \<Rightarrow> flight" where
  "getFlightCategory metarString =
     (let vis = parseVisibility metarString;
          ceil = parseCeiling metarString
      in if ceil_lt ceil 500 \<or> vis_lt vis 1
           then \<lparr>category = LIFR, visibilitySM = vis, ceilingFt = ceil\<rparr>
         else if ceil_lt ceil 1000 \<or> vis_lt vis 3
           then \<lparr>category = IFR, visibilitySM = vis, ceilingFt = ceil\<rparr>
         else if ceil_le ceil 3000 \<or> vis_le vis 5
           then \<lparr>category = MVFR, visibilitySM = vis, ceilingFt = ceil\<rparr>
         else \<lparr>category = VFR, visibilitySM = vis, ceilingFt = ceil\<rparr>)"

section \<open>Strings and number formatting\<close>

text \<open>
  \<open>toUpperCase\<close> and \<open>toLowerCase\<close> on a code unit, for the ASCII letters. The source
  applies them to phrases of its own tables and to captured codes, which are ASCII.
\<close>

definition to_upper :: "char \<Rightarrow> char" where
  "to_upper c = (if 97 \<le> code c \<and> code c \<le> 122 then char_of (code c - 32) else c)"

definition to_lower :: "char \<Rightarrow> char" where
  "to_lower c = (if 65 \<le> code c \<and> code c \<le> 90 then char_of (code c + 32) else c)"

datatype js_error = TypeError

text \<open>
  \<open>w[0].toUpperCase() + w.slice(1)\<close>: on the empty string \<open>w[0]\<close> is \<open>undefined\<close> and the
  method call throws.
\<close>

fun capitalize :: "string \<Rightarrow> js_error + string" where
  "capitalize [] = Inl TypeError"
| "capitalize (c # cs) = Inr (to_upper c # cs)"

text \<open>\<open>Array.prototype.join\<close>.\<close>

fun join :: "string \<Rightarrow> string list \<Rightarrow> string" where
  "join sep [] = []"
| "join sep [x] = x"
| "join sep (x # xs) = x @ sep @ join sep xs"

text \<open>\<open>String.prototype.trim\<close>.\<close>

definition js_trim :: "string \<Rightarrow> string" where
  "js_trim s = rev (dropWhile is_space (rev (dropWhile is_space s)))"

text \<open>The decimal digits of a natural number.\<close>

fun show_nat :: "nat \<Rightarrow> string" where
  "show_nat n =
     (if n < 10 then [char_of (48 + n)]
      else show_nat (n div 10) @ [char_of (48 + n mod 10)])"

declare show_nat.simps [simp del]

text \<open>
  The conversion of an integer-valued number to a string, as a template literal does it.
  Below \<open>2\<^sup>5\<^sup>3\<close> these are the decimal digits of the integer. From there on the
  language prints the shortest digit string \<open>s\<close> that, followed by zeros up to the length
  \<open>n\<close> of the number, still rounds to the same double; of two such strings of the same
  length the nearer to the number, the even one at equal distance. The zeros are written
  out when \<open>n \<le> 21\<close>; longer numbers are printed with an exponent.
\<close>

function show_int :: "int \<Rightarrow> string" where
  "show_int n =
     (if n < 10 then [char_of (48 + n)]
      else show_int (n div 10) @ [char_of (48 + n mod 10)])"
  by pat_completeness auto
termination
  by (relation "measure nat") auto

declare show_int.simps [simp del]

definition shortest :: "int \<Rightarrow> nat \<Rightarrow> nat \<Rightarrow> int option" where
  "shortest x nd k =
     (let p = 10 ^ (nd - k); s1 = x div p; s2 = s1 + 1;
          ok1 = (fl_int (s1 * p) = IntV x); ok2 = (fl_int (s2 * p) = IntV x)
      in if ok1 \<and> ok2
         then Some (if x - s1 * p < s2 * p - x then s1
                    else if s2 * p - x < x - s1 * p then s2
                    else if even s1 then s1 else s2)
         else if ok1 then Some s1 else if ok2 then Some s2 else None)"

definition sci :: "string \<Rightarrow> nat \<Rightarrow> string" where
  "sci ds n =
     (if n \<le> 21 then ds @ replicate (n - length ds) (CHR ''0'')
      else take 1 ds @ (if length ds = 1 then [] else ''.'' @ drop 1 ds) @ ''e+'' @
           show_int (int n - 1))"

text \<open>
  \<open>big_text x\<close> is meant for a double \<open>x \<ge> 2\<^sup>5\<^sup>3\<close>. The first test is for the digit
  string \<open>1\<close> one place longer than \<open>x\<close>, as for the double below \<open>10\<^sup>2\<^sup>3\<close> that prints as
  \<open>1e+23\<close>.
\<close>

definition big_text :: "int \<Rightarrow> string" where
  "big_text x =
     (let nd = length (show_int x)
      in if fl_int (10 ^ nd) = IntV x then sci ''1'' (Suc nd)
         else case List.map_filter (shortest x nd) [1 ..< Suc nd] of
                [] \<Rightarrow> show_int x
              | s # ss \<Rightarrow> sci (show_int s) nd)"

definition num_text :: "int \<Rightarrow> string" where
  "num_text i = (if i < 9007199254740992 then show_int i else big_text i)"

fun to_string :: "jsint \<Rightarrow> string" where
  "to_string IntNaN = ''NaN''"
| "to_string IntInfinity = ''Infinity''"
| "to_string IntNegInfinity = ''-Infinity''"
| "to_string (IntV i) = (if i < 0 then ''-'' @ num_text (- i) else num_text i)"

lemma show_int_nat: "show_int (int n) = show_nat n"
proof (induction n rule: show_nat.induct)
  case (1 n)
  have "char_of (int m) = (char_of m :: char)" for m :: nat
    by (simp add: char_of_def bit_of_nat_iff_bit)
  from this[of "48 + k" for k]
  have c: "char_of (48 + int k) = (char_of (48 + k) :: char)" for k :: nat
    by simp
  have d: "int n div 10 = int (n div 10)" "int n mod 10 = int (n mod 10)"
    by (simp_all add: zdiv_int zmod_int)
  show ?case
  proof (cases "n < 10")
    case True
    then show ?thesis
      by (subst show_int.simps, subst show_nat.simps) (simp add: c)
  next
    case False
    with 1 have "show_int (int (n div 10)) = show_nat (n div 10)" by simp
    with False show ?thesis
      by (subst show_int.simps, subst show_nat.simps) (simp add: c d)
  qed
qed

lemma to_string_small:
  "0 \<le> i \<Longrightarrow> i < 2 ^ 53 \<Longrightarrow> to_string (IntV i) = show_nat (nat i)"
  using show_int_nat[of "nat i"] by (simp add: num_text_def)

lemma show_int_nonempty: "show_int n \<noteq> []"
  by (subst show_int.simps) simp

lemma sci_nonempty: "ds \<noteq> [] \<Longrightarrow> sci ds n \<noteq> []"
  by (simp add: sci_def)

lemma to_string_nonempty: "to_string x \<noteq> []"
proof (cases x)
  case (IntV i)
  have "num_text j \<noteq> []" for j
    unfolding num_text_def big_text_def Let_def
    using show_int_nonempty sci_nonempty by (auto split: list.splits)
  then show ?thesis using IntV by simp
qed simp_all

text \<open>
  \<open>toLocaleString()\<close> of an integer-valued number. The method formats for the default
  locale of the host, which is not part of the program; the model fixes \<open>en-US\<close>, whose
  thousands separator is the comma: groups of three digits. The numbers that reach it are
  three digits times 100; the special values do not reach it and are written as words.
\<close>

function group3 :: "string \<Rightarrow> string" where
  "group3 ds =
     (if length ds \<le> 3 then ds
      else group3 (take (length ds - 3) ds) @ '','' @ drop (length ds - 3) ds)"
  by pat_completeness auto
termination
  by (relation "measure length") auto

declare group3.simps [simp del]

fun toLocaleString :: "jsint \<Rightarrow> string" where
  "toLocaleString IntNaN = ''NaN''"
| "toLocaleString IntInfinity = ''Infinity''"
| "toLocaleString IntNegInfinity = ''-Infinity''"
| "toLocaleString (IntV i) =
     (if i < 0 then ''-'' @ group3 (show_nat (nat (- i))) else group3 (show_nat (nat i)))"

text \<open>
  \<open>toFixed(2)\<close>: the integer \<open>n\<close> with \<open>n / 100\<close> nearest to the number, the larger one on a
  tie, printed with two decimals. The number is a double, so that the tie is decided on the
  exact value of the double: \<open>3 / 40\<close> is a double just below \<open>0.075\<close> and prints as \<open>0.07\<close>.
  From \<open>10\<^sup>2\<^sup>1\<close> on the method prints the number as a template literal does.
\<close>

definition pad2 :: "string \<Rightarrow> string" where
  "pad2 s = replicate (2 - length s) (CHR ''0'') @ s"

fun toFixed2 :: "jsnum \<Rightarrow> string" where
  "toFixed2 NaN = ''NaN''"
| "toFixed2 PosInf = ''Infinity''"
| "toFixed2 NegInf = ''-Infinity''"
| "toFixed2 (Num q) =
     (if 10 ^ 21 \<le> \<bar>q\<bar> then (if q < 0 then ''-'' else []) @ num_text \<lfloor>\<bar>q\<bar>\<rfloor>
      else let n = nat \<lfloor>\<bar>q\<bar> * 100 + 1 / 2\<rfloor>
           in (if q < 0 then ''-'' else []) @ show_nat (n div 100) @ ''.'' @
              pad2 (show_nat (n mod 100)))"

section \<open>METAR and TAF translation\<close>

definition SKY_COVER :: "(string \<times> string) list" where
  "SKY_COVER =
     [(''FEW'', ''few clouds''), (''SCT'', ''scattered clouds''),
      (''BKN'', ''broken clouds''), (''OVC'', ''overcast'')]"

subsection \<open>Wind\<close>

text \<open>\<^verbatim>\<open>/\b(VRB|\d{3})(\d{2,3})(G(\d{2,3}))?KT\b/\<close>\<close>

definition windRe :: regex where
  "windRe =
     seqs [WordB, Grp 1 (alts [Lit ''VRB'', Rep Digit 3 (Some 3)]), Grp 2 (Rep Digit 2 (Some 3)),
           Opt (Grp 3 (seqs [Lit ''G'', Grp 4 (Rep Digit 2 (Some 3))])), Lit ''KT'', WordB]"

text \<open>
  The wind block is written twice in the source, in \<open>translateMetar\<close> and in
  \<open>translateTaf\<close>, the same but for the first word of the sentence: \<open>Wind\<close> and
  \<open>Initial wind\<close>. The result is the list of sentences pushed: none or one.
\<close>

definition wind_sentence :: "string \<Rightarrow> string \<Rightarrow> string list" where
  "wind_sentence label s =
     (case js_match windRe s of
        None \<Rightarrow> []
      | Some windMatch \<Rightarrow>
          (let dir = (if windMatch 1 = Some ''VRB'' then ''variable'' else grp windMatch 1 @ [deg]);
               spd = parseInt (grp windMatch 2);
               gust = (case windMatch 4 of
                         None \<Rightarrow> []
                       | Some g \<Rightarrow>
                           if g = [] then []
                           else '' gusting '' @ to_string (parseInt g) @ '' knots'')
           in [if spd = IntV 0 then ''Winds calm.''
               else label @ '' '' @ dir @ '' at '' @ to_string spd @ '' knots'' @ gust @ ''.'']))"

subsection \<open>Visibility\<close>

text \<open>\<open>vis % 1 === 0 ? vis : vis.toFixed(2)\<close>, as text.\<close>

fun vis_text :: "jsnum \<Rightarrow> string" where
  "vis_text (Num q) = (if q = of_int \<lfloor>q\<rfloor> then to_string (IntV \<lfloor>q\<rfloor>) else toFixed2 (Num q))"
| "vis_text v = toFixed2 v"

text \<open>The visibility block, the same in both translators.\<close>

definition visibility_sentence :: "string \<Rightarrow> string list" where
  "visibility_sentence s =
     (case parseVisibility s of
        None \<Rightarrow> []
      | Some vis \<Rightarrow>
          [''Visibility '' @ vis_text vis @ '' statute mile'' @
             (if vis = Num 1 then [] else ''s'') @ ''.''])"

subsection \<open>Weather phenomena\<close>

definition wxCodes :: "(string \<times> string) list" where
  "wxCodes =
     [(''RA'', ''rain''), (''SN'', ''snow''), (''DZ'', ''drizzle''), (''TS'', ''thunderstorm''),
      (''FG'', ''fog''), (''BR'', ''mist''), (''HZ'', ''haze''), (''SQ'', ''squalls''),
      (''GR'', ''hail''), (''GS'', ''snow pellets''), (''UP'', ''unknown precipitation''),
      (''FU'', ''smoke''), (''SA'', ''sand''), (''DU'', ''dust'')]"

definition wxIntensity :: "(string \<times> string) list" where
  "wxIntensity = [(''-'', ''light ''), (''+'', ''heavy ''), (''VC'', ''in vicinity '')]"

text \<open>
  \<^verbatim>\<open>/\b([-+]|VC)?(MI|PR|BC|DR|BL|SH|TS|FZ)?(RA|SN|DZ|FG|BR|HZ|SQ|GR|GS|UP|FU|SA|DU|TS)\b/g\<close>
\<close>

definition wxRe :: regex where
  "wxRe =
     seqs [WordB, Opt (Grp 1 (alts [OneOf ''-+'', Lit ''VC''])),
           Opt (Grp 2 (lits [''MI'', ''PR'', ''BC'', ''DR'', ''BL'', ''SH'', ''TS'', ''FZ''])),
           Grp 3 (lits [''RA'', ''SN'', ''DZ'', ''FG'', ''BR'', ''HZ'', ''SQ'', ''GR'', ''GS'',
                        ''UP'', ''FU'', ''SA'', ''DU'', ''TS'']),
           WordB]"

lemma min_len_wxRe: "min_len wxRe = 2"
  by (simp add: wxRe_def lits_def)

text \<open>
  \<open>wxIntensity[wxMatch[1]] ?? ""\<close> and \<open>wxCodes[wxMatch[3]] ?? wxMatch[3].toLowerCase()\<close>:
  the method call on a group that took no part in the match would throw.
\<close>

definition wx_intensity :: "captures \<Rightarrow> string" where
  "wx_intensity wxMatch =
     (case map_of wxIntensity (grp wxMatch 1) of None \<Rightarrow> [] | Some v \<Rightarrow> v)"

definition wx_phenom :: "captures \<Rightarrow> js_error + string" where
  "wx_phenom wxMatch =
     (case map_of wxCodes (grp wxMatch 3) of
        Some v \<Rightarrow> Inr v
      | None \<Rightarrow>
          (case wxMatch 3 of None \<Rightarrow> Inl TypeError | Some t \<Rightarrow> Inr (map to_lower t)))"

text \<open>The loop \<open>while ((wxMatch = wxRe.exec(metarString)) !== null)\<close>, with \<open>wxFound\<close>.\<close>

function wx_loop :: "char option \<Rightarrow> string \<Rightarrow> string list \<Rightarrow> js_error + string list" where
  "wx_loop p r wxFound =
     (case search wxRe p r of
        None \<Rightarrow> Inr wxFound
      | Some (p', r', wxMatch) \<Rightarrow>
          (case wx_phenom wxMatch of
             Inl e \<Rightarrow> Inl e
           | Inr phenom \<Rightarrow> wx_loop p' r' (wxFound @ [wx_intensity wxMatch @ phenom])))"
  by pat_completeness auto
termination
proof (relation "measure (\<lambda>(p, r, wxFound). length r)")
  show "wf (measure (\<lambda>(p, r, wxFound). length r))" by simp
next
  fix p r wxFound x2 p' y r' wxMatch phenom
  assume "search wxRe p r = Some x2" and "(p', y) = x2" and "(r', wxMatch) = y"
  then have "search wxRe p r = Some (p', r', wxMatch)" by simp
  from search_progress[OF this] min_len_wxRe
  show "((p', r', wxFound @ [wx_intensity wxMatch @ phenom]), p, r, wxFound)
          \<in> measure (\<lambda>(p, r, wxFound). length r)"
    by simp
qed

declare wx_loop.simps [simp del]

definition weather_sentence :: "string \<Rightarrow> js_error + string list" where
  "weather_sentence metarString =
     (case wx_loop None metarString [] of
        Inl e \<Rightarrow> Inl e
      | Inr [] \<Rightarrow> Inr []
      | Inr (w # ws) \<Rightarrow>
          (case capitalize w of
             Inl e \<Rightarrow> Inl e
           | Inr w' \<Rightarrow> Inr [join '', '' (w' # ws) @ ''.'']))"

subsection \<open>Sky conditions\<close>

text \<open>\<^verbatim>\<open>/\b(FEW|SCT|BKN|OVC)(\d{3})(CB|TCU)?\b/\<close>, with the flag \<open>g\<close> in \<open>translateMetar\<close>.\<close>

definition skyRe :: regex where
  "skyRe =
     seqs [WordB, Grp 1 (lits [''FEW'', ''SCT'', ''BKN'', ''OVC'']),
           Grp 2 (Rep Digit 3 (Some 3)), Opt (Grp 3 (lits [''CB'', ''TCU''])), WordB]"

lemma min_len_skyRe: "min_len skyRe = 6"
  by (simp add: skyRe_def lits_def)

text \<open>
  The phrase of one layer, written the same way in both translators:
  \<open>cover\<close>, \<open>alt\<close> and \<open>cb\<close> of the source, then the template.
\<close>

definition layer_phrase :: "captures \<Rightarrow> string" where
  "layer_phrase skyMatch =
     (let cover = (case map_of SKY_COVER (grp skyMatch 1) of
                     None \<Rightarrow> grp skyMatch 1
                   | Some v \<Rightarrow> v);
          alt = int_times (parseInt (grp skyMatch 2)) 100;
          cb = (if skyMatch 3 = Some ''CB'' then '' with cumulonimbus''
                else if skyMatch 3 = Some ''TCU'' then '' with towering cumulus''
                else [])
      in cover @ '' at '' @ toLocaleString alt @ '' feet'' @ cb)"

text \<open>The loop \<open>while ((skyMatch = skyRe.exec(metarString)) !== null)\<close>, with \<open>layers\<close>.\<close>

function sky_loop :: "char option \<Rightarrow> string \<Rightarrow> string list \<Rightarrow> string list" where
  "sky_loop p r layers =
     (case search skyRe p r of
        None \<Rightarrow> layers
      | Some (p', r', skyMatch) \<Rightarrow> sky_loop p' r' (layers @ [layer_phrase skyMatch]))"
  by pat_completeness auto
termination
proof (relation "measure (\<lambda>(p, r, layers). length r)")
  show "wf (measure (\<lambda>(p, r, layers). length r))" by simp
next
  fix p r layers x2 p' y r' skyMatch
  assume "search skyRe p r = Some x2" and "(p', y) = x2" and "(r', skyMatch) = y"
  then have "search skyRe p r = Some (p', r', skyMatch)" by simp
  from search_progress[OF this] min_len_skyRe
  show "((p', r', layers @ [layer_phrase skyMatch]), p, r, layers)
          \<in> measure (\<lambda>(p, r, layers). length r)"
    by simp
qed

declare sky_loop.simps [simp del]

text \<open>\<^verbatim>\<open>/\b(CLR|SKC|CAVOK)\b/\<close>\<close>

definition clearRe :: regex where
  "clearRe = seqs [WordB, Grp 1 (lits [''CLR'', ''SKC'', ''CAVOK'']), WordB]"

text \<open>The list \<open>layers\<close> of \<open>translateMetar\<close> once the loop and the test of line 138 are done.\<close>

definition metar_layers :: "string \<Rightarrow> string list" where
  "metar_layers metarString =
     (let layers = sky_loop None metarString []
      in if js_test clearRe metarString then layers @ [''sky clear''] else layers)"

definition sky_sentence :: "string \<Rightarrow> js_error + string list" where
  "sky_sentence metarString =
     (case metar_layers metarString of
        [] \<Rightarrow> Inr []
      | l # ls \<Rightarrow>
          (case capitalize l of
             Inl e \<Rightarrow> Inl e
           | Inr first \<Rightarrow>
               Inr [first @ (if length (l # ls) > 1 then '', '' @ join '', '' ls else []) @ ''.'']))"

subsection \<open>Temperature and dewpoint\<close>

text \<open>\<^verbatim>\<open>/\b(M?\d{2})\/(M?\d{2})\b/\<close>\<close>

definition tempRe :: regex where
  "tempRe =
     seqs [WordB, Grp 1 (seqs [Opt (Lit ''M''), Rep Digit 2 (Some 2)]), Lit ''/'',
           Grp 2 (seqs [Opt (Lit ''M''), Rep Digit 2 (Some 2)]), WordB]"

text \<open>
  \<open>parse = (s) => (s.startsWith("M") ? -parseInt(s.slice(1)) : parseInt(s))\<close>, applied to
  a capture: on \<open>undefined\<close> the method call throws.
\<close>

fun parse_temp :: "string option \<Rightarrow> js_error + jsint" where
  "parse_temp None = Inl TypeError"
| "parse_temp (Some s) =
     Inr (if take 1 s = ''M'' then int_neg (parseInt (drop 1 s)) else parseInt s)"

definition temperature_sentence :: "string \<Rightarrow> js_error + string list" where
  "temperature_sentence metarString =
     (case js_match tempRe metarString of
        None \<Rightarrow> Inr []
      | Some tempMatch \<Rightarrow>
          (case parse_temp (tempMatch 1) of
             Inl e \<Rightarrow> Inl e
           | Inr t \<Rightarrow>
               (case parse_temp (tempMatch 2) of
                  Inl e \<Rightarrow> Inl e
                | Inr d \<Rightarrow>
                    Inr [''Temperature '' @ to_string t @ [deg] @ ''C, dewpoint '' @
                         to_string d @ [deg] @ ''C.''])))"

subsection \<open>Altimeter\<close>

text \<open>\<^verbatim>\<open>/\bA(\d{4})\b/\<close>\<close>

definition altRe :: regex where
  "altRe = seqs [WordB, Lit ''A'', Grp 1 (Rep Digit 4 (Some 4)), WordB]"

definition altimeter_sentence :: "string \<Rightarrow> string list" where
  "altimeter_sentence metarString =
     (case js_match altRe metarString of
        None \<Rightarrow> []
      | Some altMatch \<Rightarrow>
          [''Altimeter '' @ toFixed2 (js_div (to_num (parseInt (grp altMatch 1))) (Num 100)) @
           '' inHg.''])"

subsection \<open>translateMetar\<close>

text \<open>
  The sentences are pushed onto \<open>parts\<close> in the order of the source; an exception thrown
  by one block is the result \<open>Inl\<close>.
\<close>

definition metar_parts :: "string \<Rightarrow> js_error + string list" where
  "metar_parts metarString =
     (case weather_sentence metarString of
        Inl e \<Rightarrow> Inl e
      | Inr wx \<Rightarrow>
          (case sky_sentence metarString of
             Inl e \<Rightarrow> Inl e
           | Inr sky \<Rightarrow>
               (case temperature_sentence metarString of
                  Inl e \<Rightarrow> Inl e
                | Inr temp \<Rightarrow>
                    Inr (wind_sentence ''Wind'' metarString @ visibility_sentence metarString @
                         wx @ sky @ temp @ altimeter_sentence metarString))))"

definition translateMetar :: "string \<Rightarrow> js_error + string" where
  "translateMetar metarString =
     (case metar_parts metarString of
        Inl e \<Rightarrow> Inl e
      | Inr parts \<Rightarrow>
          Inr (if parts \<noteq> [] then join '' '' parts else ''Unable to translate METAR.''))"

subsection \<open>translateTaf\<close>

text \<open>\<^verbatim>\<open>/\b(\d{2})(\d{2})\/(\d{2})(\d{2})\b/\<close>\<close>

definition periodRe :: regex where
  "periodRe =
     seqs [WordB, Grp 1 (Rep Digit 2 (Some 2)), Grp 2 (Rep Digit 2 (Some 2)), Lit ''/'',
           Grp 3 (Rep Digit 2 (Some 2)), Grp 4 (Rep Digit 2 (Some 2)), WordB]"

text \<open>\<open>String(n).padStart(2, "0")\<close>\<close>

definition padStart2 :: "string \<Rightarrow> string" where
  "padStart2 s = replicate (2 - length s) (CHR ''0'') @ s"

definition period_sentence :: "string \<Rightarrow> string list" where
  "period_sentence tafString =
     (case js_match periodRe tafString of
        None \<Rightarrow> []
      | Some periodMatch \<Rightarrow>
          (let fromDay = parseInt (grp periodMatch 1);
               fromHr = padStart2 (to_string (parseInt (grp periodMatch 2)));
               toDay = parseInt (grp periodMatch 3);
               toHr = padStart2 (to_string (parseInt (grp periodMatch 4)))
           in [''Forecast valid day '' @ to_string fromDay @ '' from '' @ fromHr @
               '':00Z to day '' @ to_string toDay @ '' '' @ toHr @ '':00Z.'']))"

text \<open>\<^verbatim>\<open>/\b(SKC|CAVOK)\b/\<close>\<close>

definition tafClearRe :: regex where
  "tafClearRe = seqs [WordB, Grp 1 (lits [''SKC'', ''CAVOK'']), WordB]"

text \<open>The first sky layer only: \<open>tafString.match(skyRe)\<close> without the flag \<open>g\<close>.\<close>

definition taf_sky_sentence :: "string \<Rightarrow> js_error + string list" where
  "taf_sky_sentence tafString =
     (case js_match skyRe tafString of
        Some skyMatch \<Rightarrow>
          (case capitalize (layer_phrase skyMatch) of
             Inl e \<Rightarrow> Inl e
           | Inr layer \<Rightarrow> Inr [layer @ ''.''])
      | None \<Rightarrow> Inr (if js_test tafClearRe tafString then [''Sky clear.''] else []))"

text \<open>
  \<^verbatim>\<open>/\b(TEMPO|BECMG|FM\d{6})\b/g\<close>; group 0 is the text of the whole match, which
  \<open>tafString.match\<close> with the flag \<open>g\<close> collects.
\<close>

definition changeRe :: regex where
  "changeRe =
     Grp 0 (seqs [WordB, Grp 1 (alts [Lit ''TEMPO'', Lit ''BECMG'',
                                       seqs [Lit ''FM'', Rep Digit 6 (Some 6)]]), WordB])"

lemma min_len_changeRe: "min_len changeRe = 5"
  by (simp add: changeRe_def)

function change_loop :: "char option \<Rightarrow> string \<Rightarrow> string list \<Rightarrow> string list" where
  "change_loop p r changes =
     (case search changeRe p r of
        None \<Rightarrow> changes
      | Some (p', r', m) \<Rightarrow> change_loop p' r' (changes @ [grp m 0]))"
  by pat_completeness auto
termination
proof (relation "measure (\<lambda>(p, r, changes). length r)")
  show "wf (measure (\<lambda>(p, r, changes). length r))" by simp
next
  fix p r changes x2 p' y r' m
  assume "search changeRe p r = Some x2" and "(p', y) = x2" and "(r', m) = y"
  then have "search changeRe p r = Some (p', r', m)" by simp
  from search_progress[OF this] min_len_changeRe
  show "((p', r', changes @ [grp m 0]), p, r, changes)
          \<in> measure (\<lambda>(p, r, changes). length r)"
    by simp
qed

declare change_loop.simps [simp del]

definition change_sentence :: "string \<Rightarrow> string list" where
  "change_sentence tafString =
     (let changes = change_loop None tafString []
      in if changes \<noteq> []
         then [''Contains '' @ show_nat (length changes) @ '' change group'' @
               (if length changes > 1 then ''s'' else []) @ '' ('' @ join '', '' changes @ '').'']
         else [])"

definition taf_parts :: "string \<Rightarrow> js_error + string list" where
  "taf_parts tafString =
     (case taf_sky_sentence tafString of
        Inl e \<Rightarrow> Inl e
      | Inr sky \<Rightarrow>
          Inr (period_sentence tafString @ wind_sentence ''Initial wind'' tafString @
               visibility_sentence tafString @ sky @ change_sentence tafString))"

definition translateTaf :: "string \<Rightarrow> js_error + string" where
  "translateTaf tafString =
     (if tafString = [] \<or> js_trim tafString = [] then Inr ''No TAF available.''
      else case taf_parts tafString of
        Inl e \<Rightarrow> Inl e
      | Inr parts \<Rightarrow>
          Inr (if parts \<noteq> [] then join '' '' parts else ''Unable to translate TAF.''))"

section \<open>The flight category\<close>

text \<open>
  The four rules as the specification words them, over a ceiling and a visibility that
  may be absent: a rule fires when a reading is present and below (or, for MVFR, at or
  below) its threshold.
\<close>

definition rule_lifr :: "jsint option \<Rightarrow> jsnum option \<Rightarrow> bool" where
  "rule_lifr c v =
     ((case c of None \<Rightarrow> False | Some ft \<Rightarrow> int_lt ft (IntV 500)) \<or>
      (case v of None \<Rightarrow> False | Some sm \<Rightarrow> js_lt sm (Num 1)))"

definition rule_ifr :: "jsint option \<Rightarrow> jsnum option \<Rightarrow> bool" where
  "rule_ifr c v =
     ((case c of None \<Rightarrow> False | Some ft \<Rightarrow> int_lt ft (IntV 1000)) \<or>
      (case v of None \<Rightarrow> False | Some sm \<Rightarrow> js_lt sm (Num 3)))"

definition rule_mvfr :: "jsint option \<Rightarrow> jsnum option \<Rightarrow> bool" where
  "rule_mvfr c v =
     ((case c of None \<Rightarrow> False | Some ft \<Rightarrow> int_le ft (IntV 3000)) \<or>
      (case v of None \<Rightarrow> False | Some sm \<Rightarrow> js_le sm (Num 5)))"

definition first_rule :: "jsint option \<Rightarrow> jsnum option \<Rightarrow> category" where
  "first_rule c v =
     (if rule_lifr c v then LIFR
      else if rule_ifr c v then IFR
      else if rule_mvfr c v then MVFR
      else VFR)"

lemma ceil_lt_case: "ceil_lt c k = (case c of None \<Rightarrow> False | Some ft \<Rightarrow> int_lt ft (IntV k))"
  by (cases c) simp_all

lemma ceil_le_case: "ceil_le c k = (case c of None \<Rightarrow> False | Some ft \<Rightarrow> int_le ft (IntV k))"
  by (cases c) simp_all

lemma vis_lt_case: "vis_lt v k = (case v of None \<Rightarrow> False | Some sm \<Rightarrow> js_lt sm (Num k))"
  by (cases v) simp_all

lemma vis_le_case: "vis_le v k = (case v of None \<Rightarrow> False | Some sm \<Rightarrow> js_le sm (Num k))"
  by (cases v) simp_all

lemma eval_ceiling_400: "parseCeiling ''KXYZ 121856Z 10SM OVC004 22/12 A3002'' = Some (IntV 400)"
  by code_simp

lemma eval_visibility_10: "parseVisibility ''KXYZ 121856Z 10SM OVC004 22/12 A3002'' = Some (Num 10)"
  by code_simp

lemma eval_ceiling_none: "parseCeiling ''KXYZ 121856Z 2SM FEW040 22/12 A3002'' = None"
  by code_simp

lemma eval_visibility_2: "parseVisibility ''KXYZ 121856Z 2SM FEW040 22/12 A3002'' = Some (Num 2)"
  by code_simp

lemma eval_ceiling_2000: "parseCeiling ''KXYZ 121856Z BKN020 22/12 A3002'' = Some (IntV 2000)"
  by code_simp

lemma eval_visibility_none: "parseVisibility ''KXYZ 121856Z BKN020 22/12 A3002'' = None"
  by code_simp

lemma eval_both_none:
  "parseCeiling ''KXYZ 121856Z 22/12 A3002'' = None \<and> parseVisibility ''KXYZ 121856Z 22/12 A3002'' = None"
  by code_simp

text \<open>
  Claim C1. For every report string the classifier returns the category of the first of
  the four rules that fires on the extracted ceiling and visibility, in the order LIFR,
  IFR, MVFR, VFR, together with the two readings themselves. A ceiling of 400 with a
  visibility of 10 is LIFR, an absent ceiling with a visibility of 2 is IFR, a ceiling
  of 2000 with an absent visibility is MVFR, both absent is VFR; at the thresholds, a
  ceiling of 500 and a visibility of 1 are not LIFR, a ceiling of 1000 and a visibility
  of 3 are not IFR, while a ceiling of 3000 and a visibility of 5 are still MVFR.
\<close>

theorem flight_category_first_rule:
  "getFlightCategory s =
     \<lparr>category = first_rule (parseCeiling s) (parseVisibility s),
      visibilitySM = parseVisibility s, ceilingFt = parseCeiling s\<rparr> \<and>
   first_rule (Some (IntV 400)) (Some (Num 10)) = LIFR \<and>
   first_rule None (Some (Num 2)) = IFR \<and>
   first_rule (Some (IntV 2000)) None = MVFR \<and>
   first_rule None None = VFR \<and>
   first_rule (Some (IntV 500)) (Some (Num 1)) = IFR \<and>
   first_rule (Some (IntV 1000)) (Some (Num 3)) = MVFR \<and>
   first_rule (Some (IntV 3000)) None = MVFR \<and>
   first_rule None (Some (Num 5)) = MVFR \<and>
   first_rule (Some (IntV 3100)) (Some (Num 6)) = VFR"
proof -
  have "getFlightCategory s =
     \<lparr>category = first_rule (parseCeiling s) (parseVisibility s),
      visibilitySM = parseVisibility s, ceilingFt = parseCeiling s\<rparr>"
    unfolding getFlightCategory_def first_rule_def rule_lifr_def rule_ifr_def rule_mvfr_def
      Let_def ceil_lt_case ceil_le_case vis_lt_case vis_le_case
    by simp
  then show ?thesis
    by (simp add: first_rule_def rule_lifr_def rule_ifr_def rule_mvfr_def)
qed

theorem flight_category_witness:
  "category (getFlightCategory ''KXYZ 121856Z 10SM OVC004 22/12 A3002'') = LIFR \<and>
   category (getFlightCategory ''KXYZ 121856Z 2SM FEW040 22/12 A3002'') = IFR \<and>
   category (getFlightCategory ''KXYZ 121856Z BKN020 22/12 A3002'') = MVFR \<and>
   category (getFlightCategory ''KXYZ 121856Z 22/12 A3002'') = VFR"
  using flight_category_first_rule[of "''KXYZ 121856Z 10SM OVC004 22/12 A3002''"]
    flight_category_first_rule[of "''KXYZ 121856Z 2SM FEW040 22/12 A3002''"]
    flight_category_first_rule[of "''KXYZ 121856Z BKN020 22/12 A3002''"]
    flight_category_first_rule[of "''KXYZ 121856Z 22/12 A3002''"]
    eval_ceiling_400 eval_visibility_10 eval_ceiling_none eval_visibility_2
    eval_ceiling_2000 eval_visibility_none eval_both_none
  by simp

section \<open>The ceiling\<close>

text \<open>
  A ceiling token is a word made of \<open>BKN\<close> or \<open>OVC\<close> and three digits. The ceiling of
  the specification is the lowest height among the ceiling tokens of the report, in feet.
\<close>

definition ceiling_token :: "string \<Rightarrow> bool" where
  "ceiling_token w =
     (length w = 6 \<and> (take 3 w = ''BKN'' \<or> take 3 w = ''OVC'') \<and> list_all is_digit (drop 3 w))"

definition layer_tok :: "string \<Rightarrow> captures option" where
  "layer_tok w =
     (if ceiling_token w then Some (Map.empty(1 \<mapsto> take 3 w, 2 \<mapsto> drop 3 w)) else None)"

lemma layer_tok_iff:
  "layer_tok w = Some c \<longleftrightarrow>
     (\<exists>k u. w = k @ u \<and> (k = ''BKN'' \<or> k = ''OVC'') \<and> length u = 3 \<and> list_all is_digit u \<and>
        c = Map.empty(1 \<mapsto> k, 2 \<mapsto> u))"
proof
  assume "layer_tok w = Some c"
  then have h: "length w = 6" "take 3 w = ''BKN'' \<or> take 3 w = ''OVC''"
    "list_all is_digit (drop 3 w)" "c = Map.empty(1 \<mapsto> take 3 w, 2 \<mapsto> drop 3 w)"
    by (auto simp: layer_tok_def ceiling_token_def split: if_splits)
  have "w = take 3 w @ drop 3 w" by simp
  moreover have "length (drop 3 w) = 3" using h(1) by simp
  ultimately show "\<exists>k u. w = k @ u \<and> (k = ''BKN'' \<or> k = ''OVC'') \<and> length u = 3 \<and>
     list_all is_digit u \<and> c = Map.empty(1 \<mapsto> k, 2 \<mapsto> u)"
    using h(2,3,4) by blast
next
  assume "\<exists>k u. w = k @ u \<and> (k = ''BKN'' \<or> k = ''OVC'') \<and> length u = 3 \<and> list_all is_digit u \<and>
        c = Map.empty(1 \<mapsto> k, 2 \<mapsto> u)"
  then show "layer_tok w = Some c"
    by (auto simp: layer_tok_def ceiling_token_def)
qed

lemma length3_nonempty [simp]: "length u = 3 \<Longrightarrow> u \<noteq> []"
  by auto

lemma layerRe_mem':
  "st \<in> set (rmatch layerRe (p, r, c0)) \<longleftrightarrow>
      (at_boundary p r \<and>
       (\<exists>k u r'. k \<in> set [''BKN'', ''OVC''] \<and> r = k @ u @ r' \<and> list_all is_digit u \<and>
          length u = 3 \<and> at_boundary (Some (last u)) r' \<and>
          st = (Some (last u), r', c0(1 \<mapsto> k, 2 \<mapsto> u))))"
  unfolding layerRe_def seqs.simps mem_Seq
  apply (simp only: mem_WordB mem_Grp_lits mem_Grp_Rep split_paired_Ex)
  apply (auto simp: conj_disj_distribR ex_disj_distrib)
  done

lemma word_chars [simp]:
  "is_word CHR ''B''" "is_word CHR ''K''" "is_word CHR ''N''"
  "is_word CHR ''O''" "is_word CHR ''V''" "is_word CHR ''C''"
  by (simp_all add: is_word_def code_def)

lemma is_digit_word: "is_digit c \<Longrightarrow> is_word c"
  by (simp add: is_word_def)

lemma list_all_digit_word: "list_all is_digit u \<Longrightarrow> list_all is_word u"
  by (induction u) (auto simp: is_digit_word)

lemma layerRe_word_token: "word_token layerRe layer_tok"
proof (rule word_tokenI)
  fix p r st
  show "st \<in> set (rmatch layerRe (p, r, Map.empty)) \<longleftrightarrow>
      (\<exists>w r' c. r = w @ r' \<and> layer_tok w = Some c \<and> at_boundary p r \<and>
         at_boundary (Some (last w)) r' \<and> st = (Some (last w), r', c))"
    unfolding layerRe_mem' layer_tok_iff
  proof
    assume "at_boundary p r \<and>
       (\<exists>k u r'. k \<in> set [''BKN'', ''OVC''] \<and> r = k @ u @ r' \<and> list_all is_digit u \<and>
          length u = 3 \<and> at_boundary (Some (last u)) r' \<and>
          st = (Some (last u), r', Map.empty(1 \<mapsto> k, 2 \<mapsto> u)))"
    then obtain k u r' where h: "r = k @ u @ r'" "k = ''BKN'' \<or> k = ''OVC''" "length u = 3"
      "list_all is_digit u" "at_boundary p r" "at_boundary (Some (last u)) r'"
      "st = (Some (last u), r', Map.empty(1 \<mapsto> k, 2 \<mapsto> u))" by auto
    have "last (k @ u) = last u" using h(3) by auto
    with h show "\<exists>w r' c. r = w @ r' \<and>
       (\<exists>k u. w = k @ u \<and> (k = ''BKN'' \<or> k = ''OVC'') \<and> length u = 3 \<and> list_all is_digit u \<and>
          c = Map.empty(1 \<mapsto> k, 2 \<mapsto> u)) \<and>
       at_boundary p r \<and> at_boundary (Some (last w)) r' \<and> st = (Some (last w), r', c)"
      by (intro exI[of _ "k @ u"] exI[of _ r'] exI[of _ "Map.empty(1 \<mapsto> k, 2 \<mapsto> u)"]) auto
  next
    assume "\<exists>w r' c. r = w @ r' \<and>
       (\<exists>k u. w = k @ u \<and> (k = ''BKN'' \<or> k = ''OVC'') \<and> length u = 3 \<and> list_all is_digit u \<and>
          c = Map.empty(1 \<mapsto> k, 2 \<mapsto> u)) \<and>
       at_boundary p r \<and> at_boundary (Some (last w)) r' \<and> st = (Some (last w), r', c)"
    then obtain w r' c k u where h: "r = w @ r'" "w = k @ u" "k = ''BKN'' \<or> k = ''OVC''"
      "length u = 3" "list_all is_digit u" "c = Map.empty(1 \<mapsto> k, 2 \<mapsto> u)"
      "at_boundary p r" "at_boundary (Some (last w)) r'" "st = (Some (last w), r', c)" by blast
    have "last (k @ u) = last u" using h(4) by auto
    with h have "k \<in> set [''BKN'', ''OVC''] \<and> r = k @ u @ r' \<and> list_all is_digit u \<and>
          length u = 3 \<and> at_boundary (Some (last u)) r' \<and>
          st = (Some (last u), r', Map.empty(1 \<mapsto> k, 2 \<mapsto> u))" by auto
    with h(7) show "at_boundary p r \<and>
       (\<exists>k u r'. k \<in> set [''BKN'', ''OVC''] \<and> r = k @ u @ r' \<and> list_all is_digit u \<and>
          length u = 3 \<and> at_boundary (Some (last u)) r' \<and>
          st = (Some (last u), r', Map.empty(1 \<mapsto> k, 2 \<mapsto> u)))" by blast
  qed
next
  fix w c
  assume "layer_tok w = Some c"
  then obtain k u where "w = k @ u" "k = ''BKN'' \<or> k = ''OVC''" "length u = 3" "list_all is_digit u"
    unfolding layer_tok_iff by blast
  then show "w \<noteq> [] \<and> list_all is_word w"
    using list_all_digit_word[of u] by auto
qed

definition lower :: "jsint option \<Rightarrow> jsint \<Rightarrow> jsint option" where
  "lower lowestFt ft =
     (case lowestFt of None \<Rightarrow> Some ft | Some l \<Rightarrow> if int_lt ft l then Some ft else lowestFt)"

definition layer_feet :: "string \<Rightarrow> nat" where
  "layer_feet w = 100 * digits_val (drop 3 w)"

definition spec_ceiling :: "string \<Rightarrow> nat option" where
  "spec_ceiling s =
     (let fts = map layer_feet (filter ceiling_token (words_of s))
      in if fts = [] then None else Some (Min (set fts)))"

lemma parseInt_digits:
  "list_all is_digit u \<Longrightarrow> u \<noteq> [] \<Longrightarrow> length u \<le> 15 \<Longrightarrow>
     parseInt u = IntV (int (digits_val u))"
proof -
  assume a: "list_all is_digit u" "u \<noteq> []" "length u \<le> 15"
  then have tw: "takeWhile is_digit u = u" by (simp add: list_all_iff takeWhile_eq_all_conv)
  have "digits_val u < 10 ^ length u" using a(1) by (rule digits_val_bound)
  also have "(10::nat) ^ length u \<le> 10 ^ 15" using a(3) by (intro power_increasing) simp_all
  finally have "int (digits_val u) < 2 ^ 53" by simp
  then have "fl_int (int (digits_val u)) = IntV (int (digits_val u))"
    by (intro fl_int_exact) simp
  then show ?thesis unfolding parseInt_def Let_def tw digits_int_val using a(2) by simp
qed

lemma parseInt_times_100:
  assumes "list_all is_digit u" "u \<noteq> []" "length u \<le> 13"
  shows "int_times (parseInt u) 100 = IntV (100 * int (digits_val u))"
proof -
  from assms have p: "parseInt u = IntV (int (digits_val u))" by (intro parseInt_digits) auto
  have "digits_val u < 10 ^ length u" using assms(1) by (rule digits_val_bound)
  also have "(10::nat) ^ length u \<le> 10 ^ 13" using assms(3) by (intro power_increasing) simp_all
  finally have "\<bar>int (digits_val u) * 100\<bar> < 2 ^ 53" by simp
  from fl_int_exact[OF this] show ?thesis unfolding p by (simp add: mult.commute)
qed

lemma layer_tok_feet:
  assumes "layer_tok w = Some c"
  shows "int_times (parseInt (grp c 2)) 100 = IntV (int (layer_feet w))" "ceiling_token w"
proof -
  from assms obtain k u where h: "w = k @ u" "k = ''BKN'' \<or> k = ''OVC''" "length u = 3"
    "list_all is_digit u" "c = Map.empty(1 \<mapsto> k, 2 \<mapsto> u)"
    unfolding layer_tok_iff by blast
  then have "drop 3 w = u" by auto
  moreover have "grp c 2 = u" using h(5) by (simp add: grp_def)
  moreover have "int_times (parseInt u) 100 = IntV (100 * int (digits_val u))"
    using h(3,4) by (intro parseInt_times_100) auto
  ultimately show "int_times (parseInt (grp c 2)) 100 = IntV (int (layer_feet w))"
    by (simp add: layer_feet_def)
  show "ceiling_token w" using assms by (simp add: layer_tok_def split: if_splits)
qed

lemma layer_tok_none: "layer_tok w = None \<longleftrightarrow> \<not> ceiling_token w"
  by (simp add: layer_tok_def)

lemma filter_none: "list_all (\<lambda>v. \<not> P v) ws \<Longrightarrow> filter P ws = []"
  by (induction ws) auto

lemma ceil_loop_words:
  "ceil_loop p r acc =
     foldl lower acc (map (\<lambda>w. IntV (int (layer_feet w))) (filter ceiling_token (words_from p r)))"
proof (induction p r acc rule: ceil_loop.induct)
  case (1 p r lowestFt)
  show ?case
  proof (cases "search layerRe p r")
    case None
    from search_words_none[OF layerRe_word_token None]
    have "filter ceiling_token (words_from p r) = []"
      by (intro filter_none) (simp add: layer_tok_none)
    with None show ?thesis by (simp add: ceil_loop.simps[of p r])
  next
    case (Some st)
    obtain p' r' c where st: "st = (p', r', c)" by (cases st) auto
    with Some have s: "search layerRe p r = Some (p', r', c)" by simp
    from search_words_some[OF layerRe_word_token s] obtain ws w
      where w: "words_from p r = ws @ w # words_from p' r'"
        "list_all (\<lambda>v. layer_tok v = None) ws" "layer_tok w = Some c" by blast
    have f: "filter ceiling_token (words_from p r) = w # filter ceiling_token (words_from p' r')"
      using w(1,2) layer_tok_feet(2)[OF w(3)] filter_none[of ceiling_token ws]
      by (simp add: layer_tok_none)
    define ft where "ft = int_times (parseInt (grp c 2)) 100"
    have ft: "ft = IntV (int (layer_feet w))"
      unfolding ft_def by (rule layer_tok_feet(1)[OF w(3)])
    have "ceil_loop p r lowestFt = ceil_loop p' r' (lower lowestFt ft)"
      using s by (simp add: ceil_loop.simps[of p r] lower_def ft_def Let_def)
    also have "\<dots> = foldl lower (lower lowestFt ft)
        (map (\<lambda>w. IntV (int (layer_feet w))) (filter ceiling_token (words_from p' r')))"
      using "1.IH"[OF s refl refl ft_def]
      unfolding lower_def by simp
    finally show ?thesis using f ft by simp
  qed
qed

lemma foldl_lower_min:
  "foldl lower (Some (IntV (int a))) (map (\<lambda>n. IntV (int n)) xs) = Some (IntV (int (Min (set (a # xs)))))"
proof (induction xs arbitrary: a)
  case Nil
  then show ?case by simp
next
  case (Cons x xs)
  have "lower (Some (IntV (int a))) (IntV (int x)) = Some (IntV (int (min x a)))"
    by (simp add: lower_def min_def)
  moreover have "Min (set (min x a # xs)) = Min (set (a # x # xs))"
    by (cases "xs = []") (auto simp: min.commute min.left_commute)
  ultimately show ?case using Cons.IH[of "min x a"] by simp
qed

text \<open>
  Claim C2. For every report string, the ceiling extracted by \<open>parseCeiling\<close> is the
  ceiling of the specification: among the words of the report exactly those made of
  \<open>BKN\<close> or \<open>OVC\<close> and three digits count (a word that starts with \<open>FEW\<close> or \<open>SCT\<close> is
  no ceiling token), each is worth a hundred times its three digits in feet, and the
  result is the minimum of these heights, or absent when there is no such word.
\<close>

theorem parseCeiling_lowest_layer:
  "parseCeiling s = map_option (\<lambda>n. IntV (int n)) (spec_ceiling s)"
proof -
  let ?fts = "map layer_feet (filter ceiling_token (words_of s))"
  have a: "parseCeiling s = foldl lower None (map (\<lambda>n. IntV (int n)) ?fts)"
    unfolding parseCeiling_def ceil_loop_words by (simp add: words_from_def comp_def)
  show ?thesis
  proof (cases ?fts)
    case Nil
    with a show ?thesis by (simp add: spec_ceiling_def)
  next
    case (Cons x xs)
    then have "parseCeiling s = foldl lower (Some (IntV (int x))) (map (\<lambda>n. IntV (int n)) xs)"
      using a by (simp add: lower_def)
    then show ?thesis using Cons by (simp add: foldl_lower_min spec_ceiling_def)
  qed
qed

lemma eval_spec_ceiling: "spec_ceiling ''SCT015 BKN025 OVC008'' = Some 800"
  by code_simp

theorem parseCeiling_lowest_layer_witness:
  "parseCeiling ''SCT015 BKN025 OVC008'' = Some (IntV 800)"
  using parseCeiling_lowest_layer[of "''SCT015 BKN025 OVC008''"] eval_spec_ceiling
  by simp

section \<open>Captures of the weather expression\<close>

definition wx_keys :: "string list" where
  "wx_keys = map fst wxCodes"

lemma Grp_lits_caps:
  "(p', r', c') \<in> set (rmatch (Grp n (lits ws)) (p, r, c)) \<Longrightarrow> \<exists>w\<in>set ws. c' = c(n \<mapsto> w)"
  by (auto simp: mem_Grp_lits)

lemma Opt_Grp_lits_caps:
  "(p', r', c') \<in> set (rmatch (Opt (Grp n (lits ws))) (p, r, c)) \<Longrightarrow>
     c' = c \<or> (\<exists>w\<in>set ws. c' = c(n \<mapsto> w))"
  by (auto simp: mem_Opt mem_Grp_lits)

lemma keys_sub: "k \<in> set [''RA'', ''SN'', ''DZ'', ''FG'', ''BR'', ''HZ'', ''SQ'',
           ''GR'', ''GS'', ''UP'', ''FU'', ''SA'', ''DU'', ''TS''] \<Longrightarrow> k \<in> set wx_keys"
  by (auto simp: wx_keys_def wxCodes_def)


lemma wxRe_caps:
  assumes "(p', r', m) \<in> set (rmatch wxRe (p, r, Map.empty))"
  shows "(\<exists>k. k \<in> set wx_keys \<and> m 3 = Some k) \<and>
         m 1 \<in> {None, Some ''-'', Some ''+'', Some ''VC''}"
proof -
  from assms obtain s1 s2 s3 s4 where
    s1: "s1 \<in> set (rmatch WordB (p, r, Map.empty))" and
    s2: "s2 \<in> set (rmatch (Opt (Grp 1 (alts [OneOf ''-+'', Lit ''VC'']))) s1)" and
    s3: "s3 \<in> set (rmatch (Opt (Grp 2 (lits [''MI'', ''PR'', ''BC'', ''DR'', ''BL'', ''SH'',
           ''TS'', ''FZ'']))) s2)" and
    s4: "s4 \<in> set (rmatch (Grp 3 (lits [''RA'', ''SN'', ''DZ'', ''FG'', ''BR'', ''HZ'', ''SQ'',
           ''GR'', ''GS'', ''UP'', ''FU'', ''SA'', ''DU'', ''TS''])) s3)" and
    s5: "(p', r', m) \<in> set (rmatch WordB s4)"
    unfolding wxRe_def seqs.simps mem_Seq by blast
  from s1 have e1: "s1 = (p, r, Map.empty)" by (simp add: mem_WordB)
  obtain p2 r2 c2 where e2: "s2 = (p2, r2, c2)" by (cases s2) auto
  have c2: "c2 1 \<in> {None, Some ''-'', Some ''+'', Some ''VC''}"
    using s2 unfolding e1 e2 mem_Opt mem_Grp alts.simps mem_Alt mem_OneOf mem_Lit
    by auto
  obtain p3 r3 c3 where e3: "s3 = (p3, r3, c3)" by (cases s3) auto
  have c3: "c3 1 = c2 1"
    using Opt_Grp_lits_caps[OF s3[unfolded e2 e3]] by auto
  obtain p4 r4 c4 where e4: "s4 = (p4, r4, c4)" by (cases s4) auto
  from Grp_lits_caps[OF s4[unfolded e3 e4]] obtain k
    where k: "k \<in> set [''RA'', ''SN'', ''DZ'', ''FG'', ''BR'', ''HZ'', ''SQ'',
           ''GR'', ''GS'', ''UP'', ''FU'', ''SA'', ''DU'', ''TS'']" "c4 = c3(3 \<mapsto> k)" by blast
  from k(2) keys_sub[OF k(1)] have c4: "c4 1 = c3 1 \<and> (\<exists>k. k \<in> set wx_keys \<and> c4 3 = Some k)"
    by simp
  from s5 have "m = c4" unfolding e4 mem_WordB by simp
  with c2 c3 c4 show ?thesis by simp
qed

definition wx_prefixes :: "string list" where
  "wx_prefixes = [[], ''light '', ''heavy '', ''in vicinity '']"

definition wx_phrases :: "string list" where
  "wx_phrases = concat (map (\<lambda>i. map (\<lambda>v. i @ v) (map snd wxCodes)) wx_prefixes)"

lemma phrases_mem:
  "w \<in> set (concat (map (\<lambda>i. map (\<lambda>v. i @ v) vs) ps)) \<longleftrightarrow> (\<exists>i\<in>set ps. \<exists>v\<in>set vs. w = i @ v)"
  by auto

lemma wx_key_lookup: "k \<in> set wx_keys \<Longrightarrow> \<exists>v. map_of wxCodes k = Some v \<and> v \<in> set (map snd wxCodes)"
proof -
  assume "k \<in> set wx_keys"
  then have "k \<in> fst ` set wxCodes" by (simp add: wx_keys_def)
  then have "map_of wxCodes k \<noteq> None" by (simp only: map_of_eq_None_iff not_not)
  then obtain v where v: "map_of wxCodes k = Some v" by blast
  then have "(k, v) \<in> set wxCodes" by (rule map_of_SomeD)
  then have "v \<in> set (map snd wxCodes)" by force
  with v show ?thesis by blast
qed

lemma wx_match_phrase:
  assumes "search wxRe p r = Some (p', r', m)"
  shows "\<exists>k v. m 3 = Some k \<and> map_of wxCodes k = Some v \<and> wx_phenom m = Inr v \<and>
           wx_intensity m @ v \<in> set wx_phrases"
proof -
  from search_in_rmatch[OF assms] obtain q t
    where "(p', r', m) \<in> set (rmatch wxRe (q, t, Map.empty))" by blast
  from wxRe_caps[OF this] obtain k where k: "k \<in> set wx_keys" "m 3 = Some k"
    and i: "m 1 \<in> {None, Some ''-'', Some ''+'', Some ''VC''}" by blast
  from wx_key_lookup[OF k(1)] obtain v
    where v: "map_of wxCodes k = Some v" "v \<in> set (map snd wxCodes)" by blast
  have ph: "wx_phenom m = Inr v" using k(2) v(1) by (simp add: wx_phenom_def grp_def)
  have "wx_intensity m \<in> set wx_prefixes"
    using i by (auto simp: wx_intensity_def grp_def wxIntensity_def wx_prefixes_def)
  with v(2) have "wx_intensity m @ v \<in> set wx_phrases"
    unfolding wx_phrases_def phrases_mem by blast
  with k(2) v(1) ph show ?thesis by blast
qed

lemma wx_loop_phrases:
  "\<exists>found. wx_loop p r acc = Inr (acc @ found) \<and> set found \<subseteq> set wx_phrases"
proof (induction p r acc rule: wx_loop.induct)
  case (1 p r wxFound)
  show ?case
  proof (cases "search wxRe p r")
    case None
    then have "wx_loop p r wxFound = Inr (wxFound @ [])" by (simp add: wx_loop.simps[of p r])
    then show ?thesis by (metis empty_subsetI list.set(1))
  next
    case (Some st)
    obtain p' r' m where st: "st = (p', r', m)" by (cases st) auto
    with Some have s: "search wxRe p r = Some (p', r', m)" by simp
    from wx_match_phrase[OF s] obtain v
      where v: "wx_phenom m = Inr v" "wx_intensity m @ v \<in> set wx_phrases" by blast
    from "1.IH"[OF s refl refl v(1)] obtain found
      where f: "wx_loop p' r' (wxFound @ [wx_intensity m @ v]) = Inr ((wxFound @ [wx_intensity m @ v]) @ found)"
        "set found \<subseteq> set wx_phrases" by blast
    have "wx_loop p r wxFound = Inr (wxFound @ ((wx_intensity m @ v) # found))"
      using s v(1) f(1) by (simp add: wx_loop.simps[of p r])
    moreover have "set ((wx_intensity m @ v) # found) \<subseteq> set wx_phrases" using v(2) f(2) by simp
    ultimately show ?thesis by blast
  qed
qed

lemma wx_values_nonempty: "v \<in> set (map snd wxCodes) \<Longrightarrow> v \<noteq> []"
  by (auto simp: wxCodes_def)

lemma wx_phrases_nonempty: "w \<in> set wx_phrases \<Longrightarrow> w \<noteq> []"
proof -
  assume "w \<in> set wx_phrases"
  then obtain i v where "w = i @ v" "v \<in> set (map snd wxCodes)"
    unfolding wx_phrases_def phrases_mem by blast
  then show ?thesis using wx_values_nonempty by simp
qed

section \<open>Captures of the temperature expression\<close>

definition temp_field :: "string \<Rightarrow> bool" where
  "temp_field x =
     (let ds = (if take 1 x = ''M'' then drop 1 x else x)
      in length ds = 2 \<and> list_all is_digit ds)"

lemma not_digit_M [simp]: "\<not> is_digit CHR ''M''"
  by (simp add: is_digit_def code_def)

lemma length2_nonempty [simp]: "length u = 2 \<Longrightarrow> u \<noteq> []"
  by auto

lemma temp_group:
  "st \<in> set (rmatch (Grp n (Seq (Opt (Lit ''M'')) (Rep Digit 2 (Some 2)))) (p, r, c)) \<longleftrightarrow>
     (\<exists>x r'. r = x @ r' \<and> temp_field x \<and> st = (Some (last x), r', c(n \<mapsto> x)))"
proof
  assume "st \<in> set (rmatch (Grp n (Seq (Opt (Lit ''M'')) (Rep Digit 2 (Some 2)))) (p, r, c))"
  then obtain p' r' c' s1 where
    a: "s1 \<in> set (rmatch (Opt (Lit ''M'')) (p, r, c))"
       "(p', r', c') \<in> set (rmatch (Rep Digit 2 (Some 2)) s1)"
       "st = (p', r', c'(n \<mapsto> take (length r - length r') r))"
    unfolding mem_Grp mem_Seq by blast
  from a(1) have "s1 = (Some CHR ''M'', drop 1 r, c) \<and> take 1 r = ''M'' \<or> s1 = (p, r, c)"
    unfolding mem_Opt mem_Lit by auto
  then show "\<exists>x r'. r = x @ r' \<and> temp_field x \<and> st = (Some (last x), r', c(n \<mapsto> x))"
  proof
    assume h: "s1 = (Some CHR ''M'', drop 1 r, c) \<and> take 1 r = ''M''"
    then obtain t where r: "r = CHR ''M'' # t" by (cases r) auto
    from a(2) h r obtain u where u: "t = u @ r'" "list_all is_digit u" "length u = 2"
      "p' = last_char (Some CHR ''M'') u" "c' = c"
      by (auto simp: mem_Rep)
    have "temp_field (CHR ''M'' # u)" using u(2,3) by (simp add: temp_field_def)
    moreover have "st = (Some (last (CHR ''M'' # u)), r', c(n \<mapsto> CHR ''M'' # u))"
      using a(3) u r by auto
    ultimately show ?thesis using r u(1) by (intro exI[of _ "CHR ''M'' # u"] exI[of _ r']) simp
  next
    assume h: "s1 = (p, r, c)"
    from a(2) h obtain u where u: "r = u @ r'" "list_all is_digit u" "length u = 2"
      "p' = last_char p u" "c' = c"
      by (auto simp: mem_Rep)
    from u(2,3) have "take 1 u \<noteq> ''M''" by (cases u) auto
    then have "temp_field u" using u(2,3) by (simp add: temp_field_def)
    moreover have "st = (Some (last u), r', c(n \<mapsto> u))"
      using a(3) u by auto
    ultimately show ?thesis using u(1) by (intro exI[of _ u] exI[of _ r']) simp
  qed
next
  assume "\<exists>x r'. r = x @ r' \<and> temp_field x \<and> st = (Some (last x), r', c(n \<mapsto> x))"
  then obtain x r' where x: "r = x @ r'" "temp_field x" "st = (Some (last x), r', c(n \<mapsto> x))"
    by blast
  show "st \<in> set (rmatch (Grp n (Seq (Opt (Lit ''M'')) (Rep Digit 2 (Some 2)))) (p, r, c))"
  proof (cases "take 1 x = ''M''")
    case True
    then obtain u where xu: "x = CHR ''M'' # u" by (cases x) auto
    with x(2) have u: "length u = 2" "list_all is_digit u" by (simp_all add: temp_field_def)
    have 1: "(Some CHR ''M'', u @ r', c) \<in> set (rmatch (Opt (Lit ''M'')) (p, r, c))"
      unfolding mem_Opt mem_Lit using x(1) xu by simp
    have 2: "(Some (last u), r', c) \<in> set (rmatch (Rep Digit 2 (Some 2)) (Some CHR ''M'', u @ r', c))"
      unfolding mem_Rep using u by (intro exI[of _ u] exI[of _ r']) auto
    have "take (length r - length r') r = x" using x(1) by simp
    moreover have "last x = last u" using xu u(1) by auto
    ultimately show ?thesis
      unfolding mem_Grp mem_Seq using 1 2 x(3) by blast
  next
    case False
    with x(2) have u: "length x = 2" "list_all is_digit x" by (simp_all add: temp_field_def)
    have 1: "(p, r, c) \<in> set (rmatch (Opt (Lit ''M'')) (p, r, c))"
      unfolding mem_Opt by simp
    have 2: "(Some (last x), r', c) \<in> set (rmatch (Rep Digit 2 (Some 2)) (p, r, c))"
      unfolding mem_Rep using u x(1) by (intro exI[of _ x] exI[of _ r']) auto
    have "take (length r - length r') r = x" using x(1) by simp
    then show ?thesis
      unfolding mem_Grp mem_Seq using 1 2 x(3) by blast
  qed
qed

lemma tempRe_caps:
  assumes "(p', r', m) \<in> set (rmatch tempRe (p, r, Map.empty))"
  shows "\<exists>t d. m 1 = Some t \<and> m 2 = Some d \<and> temp_field t \<and> temp_field d"
proof -
  from assms obtain s1 s2 s3 s4 where
    s1: "s1 \<in> set (rmatch WordB (p, r, Map.empty))" and
    s2: "s2 \<in> set (rmatch (Grp 1 (Seq (Opt (Lit ''M'')) (Rep Digit 2 (Some 2)))) s1)" and
    s3: "s3 \<in> set (rmatch (Lit ''/'') s2)" and
    s4: "s4 \<in> set (rmatch (Grp 2 (Seq (Opt (Lit ''M'')) (Rep Digit 2 (Some 2)))) s3)" and
    s5: "(p', r', m) \<in> set (rmatch WordB s4)"
    unfolding tempRe_def seqs.simps mem_Seq by blast
  from s1 have e1: "s1 = (p, r, Map.empty)" by (simp add: mem_WordB)
  from s2 obtain t p2 r2 where e2: "s2 = (p2, r2, Map.empty(1 \<mapsto> t))" and t: "temp_field t"
    unfolding e1 temp_group by blast
  from s3 obtain p3 r3 where e3: "s3 = (p3, r3, Map.empty(1 \<mapsto> t))"
    unfolding e2 mem_Lit by blast
  from s4 obtain d p4 r4 where e4: "s4 = (p4, r4, Map.empty(1 \<mapsto> t, 2 \<mapsto> d))" and d: "temp_field d"
    unfolding e3 temp_group by blast
  from s5 have "m = Map.empty(1 \<mapsto> t, 2 \<mapsto> d)" unfolding e4 mem_WordB by simp
  with t d show ?thesis by simp
qed

section \<open>The translators return a text\<close>

lemma search_match:
  "search re p r = Some st \<Longrightarrow>
     \<exists>q pre t. r = pre @ t \<and> st \<in> set (rmatch re (q, t, Map.empty))"
proof (induction r arbitrary: p)
  case Nil
  then have "st \<in> set (rmatch re (p, [], Map.empty))"
    by (simp add: first_of_in_set)
  then show ?case by blast
next
  case (Cons x xs)
  show ?case
  proof (cases "first_of (rmatch re (p, x # xs, Map.empty))")
    case None
    with Cons.prems have "search re (Some x) xs = Some st" by simp
    from Cons.IH[OF this] obtain q pre t
      where "xs = pre @ t" "st \<in> set (rmatch re (q, t, Map.empty))" by blast
    then have "x # xs = (x # pre) @ t \<and> st \<in> set (rmatch re (q, t, Map.empty))" by simp
    then show ?thesis by blast
  next
    case (Some y)
    with Cons.prems have "st \<in> set (rmatch re (p, x # xs, Map.empty))"
      by (simp add: first_of_in_set)
    then have "x # xs = [] @ (x # xs) \<and> st \<in> set (rmatch re (p, x # xs, Map.empty))" by simp
    then show ?thesis by blast
  qed
qed

lemma js_match_in_rmatch:
  assumes "js_match re s = Some m"
  shows "\<exists>q pre t p' r'. s = pre @ t \<and> (p', r', m) \<in> set (rmatch re (q, t, Map.empty))"
proof -
  from assms obtain p' r' where "search re None s = Some (p', r', m)"
    by (auto simp: js_match_def)
  from search_match[OF this] show ?thesis by blast
qed

lemma capitalize_Inr: "w \<noteq> [] \<Longrightarrow> \<exists>w'. capitalize w = Inr w' \<and> w' \<noteq> []"
  by (cases w) auto

lemma join_nonempty: "parts \<noteq> [] \<Longrightarrow> [] \<notin> set parts \<Longrightarrow> join sep parts \<noteq> []"
  by (induction sep parts rule: join.induct) auto

lemma layer_phrase_nonempty: "layer_phrase m \<noteq> []"
  by (simp add: layer_phrase_def Let_def)

lemma sky_loop_layers: "\<exists>ls. sky_loop p r acc = acc @ ls \<and> [] \<notin> set ls"
proof (induction p r acc rule: sky_loop.induct)
  case (1 p r layers)
  show ?case
  proof (cases "search skyRe p r")
    case None
    then have "sky_loop p r layers = layers @ []" by (simp add: sky_loop.simps[of p r])
    then show ?thesis by (metis empty_iff list.set(1))
  next
    case (Some st)
    obtain p' r' m where st: "st = (p', r', m)" by (cases st) auto
    with Some have s: "search skyRe p r = Some (p', r', m)" by simp
    from "1.IH"[OF s refl refl] obtain ls
      where ls: "sky_loop p' r' (layers @ [layer_phrase m]) = (layers @ [layer_phrase m]) @ ls"
        "[] \<notin> set ls" by blast
    have "sky_loop p r layers = layers @ (layer_phrase m # ls)"
      using s ls(1) by (simp add: sky_loop.simps[of p r])
    moreover have "[] \<notin> set (layer_phrase m # ls)" using ls(2) layer_phrase_nonempty[of m] by auto
    ultimately show ?thesis by blast
  qed
qed

lemma metar_layers_nonempty: "[] \<notin> set (metar_layers s)"
proof -
  from sky_loop_layers[of None s "[]"] obtain ls
    where "sky_loop None s [] = ls" "[] \<notin> set ls" by auto
  then show ?thesis by (simp add: metar_layers_def Let_def)
qed

lemma sky_sentence_ok: "\<exists>ws. sky_sentence s = Inr ws \<and> [] \<notin> set ws"
proof (cases "metar_layers s")
  case Nil
  then show ?thesis by (simp add: sky_sentence_def)
next
  case (Cons l ls)
  with metar_layers_nonempty[of s] have "l \<noteq> []" by auto
  from capitalize_Inr[OF this] obtain l' where "capitalize l = Inr l'" by blast
  with Cons show ?thesis by (simp add: sky_sentence_def)
qed

lemma weather_sentence_ok: "\<exists>ws. weather_sentence s = Inr ws \<and> [] \<notin> set ws"
proof -
  from wx_loop_phrases[of None s "[]"] obtain found
    where f: "wx_loop None s [] = Inr found" "set found \<subseteq> set wx_phrases" by auto
  show ?thesis
  proof (cases found)
    case Nil
    with f show ?thesis by (simp add: weather_sentence_def)
  next
    case (Cons w ws)
    with f(2) have "w \<noteq> []" using wx_phrases_nonempty[of w] by auto
    from capitalize_Inr[OF this] obtain w' where "capitalize w = Inr w'" by blast
    with Cons f(1) show ?thesis by (simp add: weather_sentence_def)
  qed
qed

lemma temperature_sentence_ok: "\<exists>ws. temperature_sentence s = Inr ws \<and> [] \<notin> set ws"
proof (cases "js_match tempRe s")
  case None
  then show ?thesis by (simp add: temperature_sentence_def)
next
  case (Some m)
  from js_match_in_rmatch[OF Some] obtain q t p' r'
    where "(p', r', m) \<in> set (rmatch tempRe (q, t, Map.empty))" by blast
  from tempRe_caps[OF this] obtain a b where "m 1 = Some a" "m 2 = Some b" by blast
  with Some show ?thesis by (simp add: temperature_sentence_def)
qed

lemma taf_sky_sentence_ok: "\<exists>ws. taf_sky_sentence s = Inr ws \<and> [] \<notin> set ws"
proof (cases "js_match skyRe s")
  case None
  then show ?thesis by (simp add: taf_sky_sentence_def)
next
  case (Some m)
  from capitalize_Inr[OF layer_phrase_nonempty[of m]] obtain l
    where "capitalize (layer_phrase m) = Inr l" by blast
  with Some show ?thesis by (simp add: taf_sky_sentence_def)
qed

lemma wind_sentence_nonempty: "[] \<notin> set (wind_sentence label s)"
  by (simp add: wind_sentence_def Let_def split: option.splits)

lemma visibility_sentence_nonempty: "[] \<notin> set (visibility_sentence s)"
  by (simp add: visibility_sentence_def split: option.splits)

lemma altimeter_sentence_nonempty: "[] \<notin> set (altimeter_sentence s)"
  by (simp add: altimeter_sentence_def split: option.splits)

lemma period_sentence_nonempty: "[] \<notin> set (period_sentence s)"
  by (simp add: period_sentence_def Let_def split: option.splits)

lemma change_sentence_nonempty: "[] \<notin> set (change_sentence s)"
  by (simp add: change_sentence_def Let_def)

lemma metar_parts_ok: "\<exists>parts. metar_parts s = Inr parts \<and> [] \<notin> set parts"
proof -
  from weather_sentence_ok[of s] obtain wx where wx: "weather_sentence s = Inr wx" "[] \<notin> set wx"
    by blast
  from sky_sentence_ok[of s] obtain sky where sky: "sky_sentence s = Inr sky" "[] \<notin> set sky"
    by blast
  from temperature_sentence_ok[of s] obtain tp
    where tp: "temperature_sentence s = Inr tp" "[] \<notin> set tp" by blast
  show ?thesis
    using wx sky tp wind_sentence_nonempty[of "''Wind''" s] visibility_sentence_nonempty[of s]
      altimeter_sentence_nonempty[of s]
    by (simp add: metar_parts_def)
qed

lemma taf_parts_ok: "\<exists>parts. taf_parts s = Inr parts \<and> [] \<notin> set parts"
proof -
  from taf_sky_sentence_ok[of s] obtain sky
    where sky: "taf_sky_sentence s = Inr sky" "[] \<notin> set sky" by blast
  show ?thesis
    using sky wind_sentence_nonempty[of "''Initial wind''" s] visibility_sentence_nonempty[of s]
      period_sentence_nonempty[of s] change_sentence_nonempty[of s]
    by (simp add: taf_parts_def)
qed

lemma translateMetar_total: "\<exists>out. translateMetar s = Inr out \<and> out \<noteq> []"
proof -
  from metar_parts_ok[of s] obtain parts where p: "metar_parts s = Inr parts" "[] \<notin> set parts"
    by blast
  then show ?thesis
    using join_nonempty[of parts "'' ''"] by (simp add: translateMetar_def)
qed

lemma translateTaf_total: "\<exists>out. translateTaf s = Inr out \<and> out \<noteq> []"
proof -
  from taf_parts_ok[of s] obtain parts where p: "taf_parts s = Inr parts" "[] \<notin> set parts"
    by blast
  then show ?thesis
    using join_nonempty[of parts "'' ''"] by (simp add: translateTaf_def)
qed

section \<open>The fallback sentences\<close>

definition no_metar_fields :: "string \<Rightarrow> bool" where
  "no_metar_fields s =
     (\<not> js_test windRe s \<and> parseVisibility s = None \<and> \<not> js_test wxRe s \<and>
      \<not> js_test skyRe s \<and> \<not> js_test clearRe s \<and> \<not> js_test tempRe s \<and> \<not> js_test altRe s)"

definition no_taf_fields :: "string \<Rightarrow> bool" where
  "no_taf_fields s =
     (\<not> js_test periodRe s \<and> \<not> js_test windRe s \<and> parseVisibility s = None \<and>
      \<not> js_test skyRe s \<and> \<not> js_test tafClearRe s \<and> \<not> js_test changeRe s)"

lemma no_match: "\<not> js_test re s \<Longrightarrow> js_match re s = None \<and> search re None s = None"
  unfolding js_test_def js_match_def by (cases "search re None s") simp_all

lemma no_metar_parts: "no_metar_fields s \<Longrightarrow> metar_parts s = Inr []"
  unfolding no_metar_fields_def
  by (simp add: no_match metar_parts_def wind_sentence_def visibility_sentence_def
      weather_sentence_def wx_loop.simps[of None s] sky_sentence_def metar_layers_def
      sky_loop.simps[of None s] temperature_sentence_def altimeter_sentence_def)

lemma no_taf_parts: "no_taf_fields s \<Longrightarrow> taf_parts s = Inr []"
  unfolding no_taf_fields_def
  by (simp add: no_match taf_parts_def wind_sentence_def visibility_sentence_def
      period_sentence_def taf_sky_sentence_def change_sentence_def
      change_loop.simps[of None s])

text \<open>
  Claim C5. The three fixed sentences of the translators. The TAF translator returns
  exactly \<open>No TAF available.\<close> on an empty or blank string; on a string that is not blank
  and in which none of its five extractors finds anything it returns exactly
  \<open>Unable to translate TAF.\<close>; the METAR translator returns exactly
  \<open>Unable to translate METAR.\<close> when none of its extractors finds anything. On every
  string, both translators return a text, never an exception, and the text is not empty.
\<close>

theorem translator_fallbacks:
  "(js_trim t = [] \<longrightarrow> translateTaf t = Inr ''No TAF available.'') \<and>
   (js_trim t \<noteq> [] \<and> no_taf_fields t \<longrightarrow> translateTaf t = Inr ''Unable to translate TAF.'') \<and>
   (no_metar_fields s \<longrightarrow> translateMetar s = Inr ''Unable to translate METAR.'') \<and>
   (\<exists>out. translateMetar s = Inr out \<and> out \<noteq> []) \<and>
   (\<exists>out. translateTaf t = Inr out \<and> out \<noteq> [])"
proof (intro conjI impI)
  assume "js_trim t = []"
  then show "translateTaf t = Inr ''No TAF available.''" by (simp add: translateTaf_def)
next
  assume a: "js_trim t \<noteq> [] \<and> no_taf_fields t"
  then have "t \<noteq> []" by (auto simp: js_trim_def)
  with a show "translateTaf t = Inr ''Unable to translate TAF.''"
    by (simp add: translateTaf_def no_taf_parts)
next
  assume "no_metar_fields s"
  then show "translateMetar s = Inr ''Unable to translate METAR.''"
    by (simp add: translateMetar_def no_metar_parts)
next
  show "\<exists>out. translateMetar s = Inr out \<and> out \<noteq> []" by (rule translateMetar_total)
next
  show "\<exists>out. translateTaf t = Inr out \<and> out \<noteq> []" by (rule translateTaf_total)
qed

lemma eval_blank: "js_trim ''   '' = []"
  by code_simp

lemma eval_no_taf_fields: "js_trim ''hello world'' \<noteq> [] \<and> no_taf_fields ''hello world''"
  by code_simp

lemma eval_no_metar_fields: "no_metar_fields ''hello world''"
  by code_simp

theorem translator_fallbacks_witness:
  "translateTaf ''   '' = Inr ''No TAF available.'' \<and>
   translateTaf ''hello world'' = Inr ''Unable to translate TAF.'' \<and>
   translateMetar ''hello world'' = Inr ''Unable to translate METAR.''"
  using translator_fallbacks[of "''   ''" "''hello world''"]
    translator_fallbacks[of "''hello world''" "''hello world''"]
    eval_blank eval_no_taf_fields eval_no_metar_fields
  by blast

section \<open>Weather phrases, temperature, and division by zero\<close>

text \<open>
  Claim C10. Whenever the weather expression matches, its third group is a key of the
  table \<open>wxCodes\<close>, so the look-up succeeds and the lower-case fallback of the source is
  never taken; and on every report the loop over the weather groups ends without an
  exception with phrases that are each a value of the table, alone or after one of the
  prefixes \<open>light\<close>, \<open>heavy\<close> and \<open>in vicinity\<close>.
\<close>

theorem weather_phrases_from_table:
  "(search wxRe p r = Some (p', r', m) \<longrightarrow>
      (\<exists>k v. m 3 = Some k \<and> map_of wxCodes k = Some v \<and> wx_phenom m = Inr v)) \<and>
   (\<exists>found. wx_loop None s [] = Inr found \<and> set found \<subseteq> set wx_phrases)"
proof (intro conjI impI)
  assume "search wxRe p r = Some (p', r', m)"
  from wx_match_phrase[OF this]
  show "\<exists>k v. m 3 = Some k \<and> map_of wxCodes k = Some v \<and> wx_phenom m = Inr v" by blast
next
  from wx_loop_phrases[of None s "[]"]
  show "\<exists>found. wx_loop None s [] = Inr found \<and> set found \<subseteq> set wx_phrases" by simp
qed

lemma eval_wx_search:
  "(case search wxRe None ''+TSRA'' of None \<Rightarrow> False | Some (p', r', m) \<Rightarrow> m 3 = Some ''RA'')"
  by code_simp

lemma eval_wx_loop:
  "wx_loop None ''KXYZ 28012KT X-RA VCTS +TSRA BR'' [] =
     Inr [''light rain'', ''in vicinity thunderstorm'', ''rain'', ''mist'']"
  by code_simp

theorem weather_phrases_witness:
  "(\<exists>p' r' m. search wxRe None ''+TSRA'' = Some (p', r', m) \<and> wx_phenom m = Inr ''rain'') \<and>
   (\<exists>found. wx_loop None ''KXYZ 28012KT X-RA VCTS +TSRA BR'' [] = Inr found \<and>
      set found \<subseteq> set wx_phrases)"
proof -
  from eval_wx_search obtain p' r' m
    where s: "search wxRe None ''+TSRA'' = Some (p', r', m)" and m: "m 3 = Some ''RA''"
    by (auto split: option.splits)
  from weather_phrases_from_table[of None "''+TSRA''" p' r' m] s obtain k v
    where "m 3 = Some k" "map_of wxCodes k = Some v" "wx_phenom m = Inr v" by blast
  with m have "wx_phenom m = Inr ''rain''" by (simp add: wxCodes_def)
  with s weather_phrases_from_table[of None "''+TSRA''" p' r' m
      "''KXYZ 28012KT X-RA VCTS +TSRA BR''"]
  show ?thesis by blast
qed








lemma eval_translate_temperature:
  "translateMetar ''M03/M08'' = Inr (''Temperature -3'' @ [deg] @ ''C, dewpoint -8'' @ [deg] @ ''C.'') \<and>
   translateMetar ''05/M01'' = Inr (''Temperature 5'' @ [deg] @ ''C, dewpoint -1'' @ [deg] @ ''C.'')"
  by code_simp

text \<open>
  Claim C4 fails on the code: the two divisions of \<open>parseVisibility\<close> have no guard, so a
  fraction whose denominator digits are zero yields \<open>Infinity\<close>, or \<open>NaN\<close> when the
  numerator is zero too. The translation then reads \<open>Visibility Infinity statute miles.\<close>
  and the classifier, whose comparisons are all false on such a value, reports VFR.
\<close>

theorem visibility_zero_denominator:
  "parseVisibility ''1/0SM'' = Some PosInf \<and>
   parseVisibility ''0/0SM'' = Some NaN \<and>
   parseVisibility ''2 1/0SM'' = Some PosInf \<and>
   translateMetar ''1/0SM'' = Inr ''Visibility Infinity statute miles.'' \<and>
   category (getFlightCategory ''OVC050 1/0SM'') = VFR"
  by code_simp

section \<open>Sky-layer tokens\<close>

definition covers :: "string list" where
  "covers = [''FEW'', ''SCT'', ''BKN'', ''OVC'']"

definition sky_token :: "string \<Rightarrow> bool" where
  "sky_token w =
     (take 3 w \<in> set covers \<and> length (take 3 (drop 3 w)) = 3 \<and>
      list_all is_digit (take 3 (drop 3 w)) \<and> drop 6 w \<in> set [[], ''CB'', ''TCU''])"

definition sky_caps :: "string \<Rightarrow> captures" where
  "sky_caps w =
     (if drop 6 w = [] then Map.empty(1 \<mapsto> take 3 w, 2 \<mapsto> take 3 (drop 3 w))
      else Map.empty(1 \<mapsto> take 3 w, 2 \<mapsto> take 3 (drop 3 w), 3 \<mapsto> drop 6 w))"

definition sky_tok :: "string \<Rightarrow> captures option" where
  "sky_tok w = (if sky_token w then Some (sky_caps w) else None)"

lemma covers_length: "k \<in> set covers \<Longrightarrow> length k = 3 \<and> list_all is_word k"
  by (auto simp: covers_def is_word_def is_digit_def code_def)

lemma cb_word: "x \<in> set [''CB'', ''TCU''] \<Longrightarrow> x \<noteq> [] \<and> list_all is_word x"
  by (auto simp: is_word_def is_digit_def code_def)

lemma sky_tok_iff:
  "sky_tok w = Some c \<longleftrightarrow>
     (\<exists>k u x. w = k @ u @ x \<and> k \<in> set covers \<and> length u = 3 \<and> list_all is_digit u \<and>
        x \<in> set [[], ''CB'', ''TCU''] \<and>
        c = (if x = [] then Map.empty(1 \<mapsto> k, 2 \<mapsto> u) else Map.empty(1 \<mapsto> k, 2 \<mapsto> u, 3 \<mapsto> x)))"
proof
  assume "sky_tok w = Some c"
  then have t: "sky_token w" and c: "c = sky_caps w"
    by (auto simp: sky_tok_def split: if_splits)
  let ?k = "take 3 w" and ?u = "take 3 (drop 3 w)" and ?x = "drop 6 w"
  have "drop 3 (drop 3 w) = drop 6 w" by simp
  then have "w = ?k @ ?u @ ?x" by (metis append_take_drop_id)
  moreover have "c = (if ?x = [] then Map.empty(1 \<mapsto> ?k, 2 \<mapsto> ?u)
      else Map.empty(1 \<mapsto> ?k, 2 \<mapsto> ?u, 3 \<mapsto> ?x))"
    using c by (simp add: sky_caps_def)
  ultimately show "\<exists>k u x. w = k @ u @ x \<and> k \<in> set covers \<and> length u = 3 \<and> list_all is_digit u \<and>
        x \<in> set [[], ''CB'', ''TCU''] \<and>
        c = (if x = [] then Map.empty(1 \<mapsto> k, 2 \<mapsto> u) else Map.empty(1 \<mapsto> k, 2 \<mapsto> u, 3 \<mapsto> x))"
    using t unfolding sky_token_def by blast
next
  assume "\<exists>k u x. w = k @ u @ x \<and> k \<in> set covers \<and> length u = 3 \<and> list_all is_digit u \<and>
        x \<in> set [[], ''CB'', ''TCU''] \<and>
        c = (if x = [] then Map.empty(1 \<mapsto> k, 2 \<mapsto> u) else Map.empty(1 \<mapsto> k, 2 \<mapsto> u, 3 \<mapsto> x))"
  then obtain k u x where h: "w = k @ u @ x" "k \<in> set covers" "length u = 3" "list_all is_digit u"
    "x \<in> set [[], ''CB'', ''TCU'']"
    "c = (if x = [] then Map.empty(1 \<mapsto> k, 2 \<mapsto> u) else Map.empty(1 \<mapsto> k, 2 \<mapsto> u, 3 \<mapsto> x))"
    by blast
  from covers_length[OF h(2)] have lk: "length k = 3" by simp
  have a: "take 3 w = k" "take 3 (drop 3 w) = u" "drop 6 w = x"
    using h(1,3) lk by simp_all
  show "sky_tok w = Some c"
    unfolding sky_tok_def sky_token_def sky_caps_def a using h(2-6) by simp
qed

lemma sky_tok_wordy:
  assumes "sky_tok w = Some c"
  shows "w \<noteq> [] \<and> list_all is_word w"
proof -
  from assms obtain k u x where h: "w = k @ u @ x" "k \<in> set covers" "length u = 3"
    "list_all is_digit u" "x \<in> set [[], ''CB'', ''TCU'']"
    unfolding sky_tok_iff by blast
  have "list_all is_word x" using h(5) cb_word[of x] by (cases "x = []") auto
  with h covers_length[OF h(2)] list_all_digit_word[OF h(4)] show ?thesis by auto
qed

lemma skyRe_word_token: "word_token skyRe sky_tok"
proof (rule word_tokenI)
  fix w c
  assume "sky_tok w = Some c"
  then show "w \<noteq> [] \<and> list_all is_word w" by (rule sky_tok_wordy)
next
  fix p r st
  let ?c0 = "Map.empty :: captures"
  let ?G1 = "Grp 1 (lits [''FEW'', ''SCT'', ''BKN'', ''OVC''])"
  let ?G2 = "Grp 2 (Rep Digit 3 (Some 3))"
  let ?O3 = "Opt (Grp 3 (lits [''CB'', ''TCU'']))"
  have chain: "st \<in> set (rmatch skyRe (p, r, ?c0)) \<longleftrightarrow>
      (\<exists>s1 s2 s3 s4. s1 \<in> set (rmatch WordB (p, r, ?c0)) \<and> s2 \<in> set (rmatch ?G1 s1) \<and>
         s3 \<in> set (rmatch ?G2 s2) \<and> s4 \<in> set (rmatch ?O3 s3) \<and> st \<in> set (rmatch WordB s4))"
    unfolding skyRe_def seqs.simps mem_Seq by blast
  show "st \<in> set (rmatch skyRe (p, r, ?c0)) \<longleftrightarrow>
      (\<exists>w r' c. r = w @ r' \<and> sky_tok w = Some c \<and> at_boundary p r \<and>
         at_boundary (Some (last w)) r' \<and> st = (Some (last w), r', c))"
  proof
    assume "st \<in> set (rmatch skyRe (p, r, ?c0))"
    then obtain s1 s2 s3 s4 where
      s1: "s1 \<in> set (rmatch WordB (p, r, ?c0))" and s2: "s2 \<in> set (rmatch ?G1 s1)" and
      s3: "s3 \<in> set (rmatch ?G2 s2)" and s4: "s4 \<in> set (rmatch ?O3 s3)" and
      s5: "st \<in> set (rmatch WordB s4)"
      unfolding chain by blast
    from s1 have e1: "s1 = (p, r, ?c0)" and b1: "at_boundary p r" by (simp_all add: mem_WordB)
    from s2 obtain k r1 where k: "k \<in> set covers" "r = k @ r1"
      and e2: "s2 = (last_char p k, r1, ?c0(1 \<mapsto> k))"
      unfolding e1 mem_Grp_lits covers_def by blast
    from s3 obtain u r2 where u: "r1 = u @ r2" "list_all is_digit u" "length u = 3"
      and e3: "s3 = (Some (last u), r2, ?c0(1 \<mapsto> k, 2 \<mapsto> u))"
      unfolding e2 mem_Grp_Rep by auto
    from s4 have "(\<exists>x r'. x \<in> set [''CB'', ''TCU''] \<and> r2 = x @ r' \<and>
          s4 = (last_char (Some (last u)) x, r', ?c0(1 \<mapsto> k, 2 \<mapsto> u, 3 \<mapsto> x))) \<or> s4 = s3"
      unfolding e3 mem_Opt mem_Grp_lits by blast
    then obtain x r' where x: "x \<in> set [[], ''CB'', ''TCU'']" "r2 = x @ r'"
      and e4: "s4 = (Some (last (u @ x)), r',
            (if x = [] then ?c0(1 \<mapsto> k, 2 \<mapsto> u) else ?c0(1 \<mapsto> k, 2 \<mapsto> u, 3 \<mapsto> x)))"
    proof
      assume "\<exists>x r'. x \<in> set [''CB'', ''TCU''] \<and> r2 = x @ r' \<and>
          s4 = (last_char (Some (last u)) x, r', ?c0(1 \<mapsto> k, 2 \<mapsto> u, 3 \<mapsto> x))"
      then obtain x r' where h: "x \<in> set [''CB'', ''TCU'']" "r2 = x @ r'"
        "s4 = (last_char (Some (last u)) x, r', ?c0(1 \<mapsto> k, 2 \<mapsto> u, 3 \<mapsto> x))" by blast
      from cb_word[OF h(1)] have "x \<noteq> []" by simp
      with h have "x \<in> set [[], ''CB'', ''TCU'']" "r2 = x @ r'"
        "s4 = (Some (last (u @ x)), r',
            (if x = [] then ?c0(1 \<mapsto> k, 2 \<mapsto> u) else ?c0(1 \<mapsto> k, 2 \<mapsto> u, 3 \<mapsto> x)))"
        by auto
      then show ?thesis by (rule that)
    next
      assume "s4 = s3"
      with e3 u(3) have "[] \<in> set [[], ''CB'', ''TCU'']" "r2 = [] @ r2"
        "s4 = (Some (last (u @ [])), r2,
            (if ([]::string) = [] then ?c0(1 \<mapsto> k, 2 \<mapsto> u) else ?c0(1 \<mapsto> k, 2 \<mapsto> u, 3 \<mapsto> [])))"
        by auto
      then show ?thesis by (rule that)
    qed
    from s5 have e5: "st = s4" and b5: "at_boundary (Some (last (u @ x))) r'"
      unfolding e4 mem_WordB by simp_all
    let ?w = "k @ u @ x"
    let ?c = "if x = [] then ?c0(1 \<mapsto> k, 2 \<mapsto> u) else ?c0(1 \<mapsto> k, 2 \<mapsto> u, 3 \<mapsto> x)"
    have tok: "sky_tok ?w = Some ?c"
      unfolding sky_tok_iff using k(1) u(2,3) x(1) by blast
    have lw: "last ?w = last (u @ x)" using u(3) by auto
    have "r = ?w @ r'" using k(2) u(1) x(2) by simp
    with tok b1 b5 e5 e4 lw
    have "r = ?w @ r' \<and> sky_tok ?w = Some ?c \<and> at_boundary p r \<and>
         at_boundary (Some (last ?w)) r' \<and> st = (Some (last ?w), r', ?c)"
      by simp
    then show "\<exists>w r' c. r = w @ r' \<and> sky_tok w = Some c \<and> at_boundary p r \<and>
         at_boundary (Some (last w)) r' \<and> st = (Some (last w), r', c)" by blast
  next
    assume "\<exists>w r' c. r = w @ r' \<and> sky_tok w = Some c \<and> at_boundary p r \<and>
         at_boundary (Some (last w)) r' \<and> st = (Some (last w), r', c)"
    then obtain w r' c where h: "r = w @ r'" "sky_tok w = Some c" "at_boundary p r"
      "at_boundary (Some (last w)) r'" "st = (Some (last w), r', c)" by blast
    from h(2) obtain k u x where d: "w = k @ u @ x" "k \<in> set covers" "length u = 3"
      "list_all is_digit u" "x \<in> set [[], ''CB'', ''TCU'']"
      "c = (if x = [] then ?c0(1 \<mapsto> k, 2 \<mapsto> u) else ?c0(1 \<mapsto> k, 2 \<mapsto> u, 3 \<mapsto> x))"
      unfolding sky_tok_iff by blast
    have lw: "last w = last (u @ x)" using d(1,3) by auto
    have 1: "(p, r, ?c0) \<in> set (rmatch WordB (p, r, ?c0))" using h(3) by (simp add: mem_WordB)
    have 2: "(last_char p k, u @ x @ r', ?c0(1 \<mapsto> k)) \<in> set (rmatch ?G1 (p, r, ?c0))"
      unfolding mem_Grp_lits using d(1,2) h(1) by (auto simp: covers_def)
    have 3: "(Some (last u), x @ r', ?c0(1 \<mapsto> k, 2 \<mapsto> u))
        \<in> set (rmatch ?G2 (last_char p k, u @ x @ r', ?c0(1 \<mapsto> k)))"
      unfolding mem_Grp_Rep using d(3,4) by (intro exI[of _ u] exI[of _ "x @ r'"]) auto
    have 4: "(Some (last (u @ x)), r', c)
        \<in> set (rmatch ?O3 (Some (last u), x @ r', ?c0(1 \<mapsto> k, 2 \<mapsto> u)))"
    proof (cases "x = []")
      case True
      with d(6) show ?thesis unfolding mem_Opt by simp
    next
      case False
      with d(5) have "x \<in> set [''CB'', ''TCU'']" by auto
      moreover have "last_char (Some (last u)) x = Some (last (u @ x))" using False by simp
      ultimately show ?thesis unfolding mem_Opt mem_Grp_lits using False d(6) by auto
    qed
    have 5: "st \<in> set (rmatch WordB (Some (last (u @ x)), r', c))"
      using h(4,5) lw by (simp add: mem_WordB)
    from 1 2 3 4 5 show "st \<in> set (rmatch skyRe (p, r, ?c0))" unfolding chain by blast
  qed
qed

fun first_some :: "('a \<Rightarrow> 'b option) \<Rightarrow> 'a list \<Rightarrow> 'b option" where
  "first_some f [] = None"
| "first_some f (x # xs) = (case f x of None \<Rightarrow> first_some f xs | Some y \<Rightarrow> Some y)"

lemma first_some_skip:
  "list_all (\<lambda>v. f v = None) ws \<Longrightarrow> first_some f (ws @ xs) = first_some f xs"
  by (induction ws) auto

lemma js_match_words:
  assumes "word_token re tok"
  shows "js_match re s = first_some tok (words_of s)"
proof (cases "search re None s")
  case None
  from search_words_none[OF assms None] have "list_all (\<lambda>w. tok w = None) (words_of s)"
    by (simp add: words_from_def)
  from first_some_skip[OF this, of "[]"] None show ?thesis by (simp add: js_match_def)
next
  case (Some st)
  obtain p' r' c where st: "st = (p', r', c)" by (cases st) auto
  with Some have s: "search re None s = Some (p', r', c)" by simp
  from search_words_some[OF assms s] obtain ws w
    where w: "words_of s = ws @ w # words_from p' r'" "list_all (\<lambda>v. tok v = None) ws"
      "tok w = Some c" by (auto simp: words_from_def)
  from first_some_skip[OF w(2)] w(1,3) have "first_some tok (words_of s) = Some c" by simp
  with s show ?thesis by (simp add: js_match_def)
qed

lemma first_some_find:
  "first_some (\<lambda>w. if P w then Some (g w) else None) ws = map_option g (find P ws)"
  by (induction ws) auto

lemma first_some_ex: "first_some f ws \<noteq> None \<longleftrightarrow> list_ex (\<lambda>w. f w \<noteq> None) ws"
  by (induction ws) (auto split: option.splits)

lemma js_test_words:
  assumes "word_token re tok"
  shows "js_test re s \<longleftrightarrow> list_ex (\<lambda>w. tok w \<noteq> None) (words_of s)"
proof -
  have "js_test re s \<longleftrightarrow> js_match re s \<noteq> None"
    by (simp add: js_test_def js_match_def)
  also have "\<dots> \<longleftrightarrow> first_some tok (words_of s) \<noteq> None"
    by (simp add: js_match_words[OF assms])
  also have "\<dots> \<longleftrightarrow> list_ex (\<lambda>w. tok w \<noteq> None) (words_of s)"
    by (rule first_some_ex)
  finally show ?thesis .
qed

lemma word_lits_token:
  assumes wordy: "\<And>w. w \<in> set ws \<Longrightarrow> w \<noteq> [] \<and> list_all is_word w"
  shows "word_token (seqs [WordB, Grp n (lits ws), WordB])
           (\<lambda>w. if w \<in> set ws then Some (Map.empty(n \<mapsto> w)) else None)"
proof (rule word_tokenI)
  fix w c
  assume "(if w \<in> set ws then Some (Map.empty(n \<mapsto> w)) else None) = Some c"
  then have "w \<in> set ws" by (simp split: if_splits)
  then show "w \<noteq> [] \<and> list_all is_word w" by (rule wordy)
next
  fix p r st
  let ?c0 = "Map.empty :: captures"
  have chain: "st \<in> set (rmatch (seqs [WordB, Grp n (lits ws), WordB]) (p, r, ?c0)) \<longleftrightarrow>
      (\<exists>s1 s2. s1 \<in> set (rmatch WordB (p, r, ?c0)) \<and> s2 \<in> set (rmatch (Grp n (lits ws)) s1) \<and>
         st \<in> set (rmatch WordB s2))"
    unfolding seqs.simps mem_Seq by blast
  show "st \<in> set (rmatch (seqs [WordB, Grp n (lits ws), WordB]) (p, r, ?c0)) \<longleftrightarrow>
      (\<exists>w r' c. r = w @ r' \<and> (if w \<in> set ws then Some (?c0(n \<mapsto> w)) else None) = Some c \<and>
         at_boundary p r \<and> at_boundary (Some (last w)) r' \<and> st = (Some (last w), r', c))"
  proof
    assume "st \<in> set (rmatch (seqs [WordB, Grp n (lits ws), WordB]) (p, r, ?c0))"
    then obtain s1 s2 where s1: "s1 \<in> set (rmatch WordB (p, r, ?c0))"
      and s2: "s2 \<in> set (rmatch (Grp n (lits ws)) s1)" and s3: "st \<in> set (rmatch WordB s2)"
      unfolding chain by blast
    from s1 have e1: "s1 = (p, r, ?c0)" and b1: "at_boundary p r" by (simp_all add: mem_WordB)
    from s2 obtain w r' where w: "w \<in> set ws" "r = w @ r'"
      and e2: "s2 = (last_char p w, r', ?c0(n \<mapsto> w))"
      unfolding e1 mem_Grp_lits by blast
    from wordy[OF w(1)] have "last_char p w = Some (last w)" by simp
    with s3 e2 have "st = (Some (last w), r', ?c0(n \<mapsto> w))" "at_boundary (Some (last w)) r'"
      by (simp_all add: mem_WordB)
    with w b1 have "r = w @ r' \<and> (if w \<in> set ws then Some (?c0(n \<mapsto> w)) else None) = Some (?c0(n \<mapsto> w)) \<and>
         at_boundary p r \<and> at_boundary (Some (last w)) r' \<and> st = (Some (last w), r', ?c0(n \<mapsto> w))"
      by simp
    then show "\<exists>w r' c. r = w @ r' \<and> (if w \<in> set ws then Some (?c0(n \<mapsto> w)) else None) = Some c \<and>
         at_boundary p r \<and> at_boundary (Some (last w)) r' \<and> st = (Some (last w), r', c)"
      by blast
  next
    assume "\<exists>w r' c. r = w @ r' \<and> (if w \<in> set ws then Some (?c0(n \<mapsto> w)) else None) = Some c \<and>
         at_boundary p r \<and> at_boundary (Some (last w)) r' \<and> st = (Some (last w), r', c)"
    then obtain w r' c where h: "r = w @ r'" "(if w \<in> set ws then Some (?c0(n \<mapsto> w)) else None) = Some c"
      "at_boundary p r" "at_boundary (Some (last w)) r'" "st = (Some (last w), r', c)" by blast
    from h(2) have w: "w \<in> set ws" "c = ?c0(n \<mapsto> w)" by (simp_all split: if_splits)
    from wordy[OF w(1)] have lw: "last_char p w = Some (last w)" by simp
    have 1: "(p, r, ?c0) \<in> set (rmatch WordB (p, r, ?c0))" using h(3) by (simp add: mem_WordB)
    have 2: "(Some (last w), r', c) \<in> set (rmatch (Grp n (lits ws)) (p, r, ?c0))"
      unfolding mem_Grp_lits using w h(1) lw by auto
    have 3: "st \<in> set (rmatch WordB (Some (last w), r', c))" using h(4,5) by (simp add: mem_WordB)
    from 1 2 3 show "st \<in> set (rmatch (seqs [WordB, Grp n (lits ws), WordB]) (p, r, ?c0))"
      unfolding chain by blast
  qed
qed

lemma clear_words: "w \<in> set [''CLR'', ''SKC'', ''CAVOK''] \<Longrightarrow> w \<noteq> [] \<and> list_all is_word w"
  by (auto simp: is_word_def is_digit_def code_def)

lemma js_test_clearRe:
  "js_test clearRe s \<longleftrightarrow> list_ex (\<lambda>w. w \<in> set [''CLR'', ''SKC'', ''CAVOK'']) (words_of s)"
proof -
  have "word_token clearRe
          (\<lambda>w. if w \<in> set [''CLR'', ''SKC'', ''CAVOK''] then Some (Map.empty(1 \<mapsto> w)) else None)"
    unfolding clearRe_def by (rule word_lits_token) (rule clear_words)
  from js_test_words[OF this, of s] show ?thesis
    by (simp add: list_ex_iff del: set_simps)
qed

lemma js_test_tafClearRe:
  "js_test tafClearRe s \<longleftrightarrow> list_ex (\<lambda>w. w \<in> set [''SKC'', ''CAVOK'']) (words_of s)"
proof -
  have "word_token tafClearRe
          (\<lambda>w. if w \<in> set [''SKC'', ''CAVOK''] then Some (Map.empty(1 \<mapsto> w)) else None)"
    unfolding tafClearRe_def by (rule word_lits_token) (use clear_words in auto)
  from js_test_words[OF this, of s] show ?thesis
    by (simp add: list_ex_iff del: set_simps)
qed

definition cover_phrase :: "string \<Rightarrow> string" where
  "cover_phrase k =
     (if k = ''FEW'' then ''few clouds''
      else if k = ''SCT'' then ''scattered clouds''
      else if k = ''BKN'' then ''broken clouds''
      else ''overcast'')"

definition layer_text :: "string \<Rightarrow> string" where
  "layer_text w =
     cover_phrase (take 3 w) @ '' at '' @
     group3 (show_nat (100 * digits_val (take 3 (drop 3 w)))) @ '' feet'' @
     (if drop 6 w = ''CB'' then '' with cumulonimbus''
      else if drop 6 w = ''TCU'' then '' with towering cumulus''
      else [])"

lemma sky_tok_phrase:
  assumes "sky_tok w = Some c"
  shows "layer_phrase c = layer_text w"
proof -
  from assms have t: "sky_token w" and c: "c = sky_caps w"
    by (auto simp: sky_tok_def split: if_splits)
  let ?k = "take 3 w" and ?u = "take 3 (drop 3 w)" and ?x = "drop 6 w"
  from t have k: "?k \<in> set covers" and u: "length ?u = 3" "list_all is_digit ?u"
    and x: "?x \<in> set [[], ''CB'', ''TCU'']"
    by (simp_all add: sky_token_def)
  have g1: "grp c 1 = ?k" and g2: "grp c 2 = ?u" and g3: "c 3 = (if ?x = [] then None else Some ?x)"
    unfolding c sky_caps_def grp_def by simp_all
  have cov: "(case map_of SKY_COVER ?k of None \<Rightarrow> ?k | Some v \<Rightarrow> v) = cover_phrase ?k"
    using k by (auto simp: covers_def SKY_COVER_def cover_phrase_def)
  have "int_times (parseInt ?u) 100 = IntV (100 * int (digits_val ?u))"
    using u by (intro parseInt_times_100) auto
  then have alt: "toLocaleString (int_times (parseInt ?u) 100) = group3 (show_nat (100 * digits_val ?u))"
    by (simp add: nat_mult_distrib)
  have cb: "(if c 3 = Some ''CB'' then '' with cumulonimbus''
             else if c 3 = Some ''TCU'' then '' with towering cumulus'' else []) =
            (if ?x = ''CB'' then '' with cumulonimbus''
             else if ?x = ''TCU'' then '' with towering cumulus'' else [])"
    unfolding g3 by auto
  show ?thesis
    unfolding layer_phrase_def layer_text_def Let_def g1 g2 cov alt cb by (rule refl)
qed

lemma sky_tok_none: "sky_tok w = None \<longleftrightarrow> \<not> sky_token w"
  by (simp add: sky_tok_def)

lemma sky_loop_words:
  "sky_loop p r acc = acc @ map layer_text (filter sky_token (words_from p r))"
proof (induction p r acc rule: sky_loop.induct)
  case (1 p r layers)
  show ?case
  proof (cases "search skyRe p r")
    case None
    from search_words_none[OF skyRe_word_token None]
    have "filter sky_token (words_from p r) = []"
      by (intro filter_none) (simp add: sky_tok_none)
    with None show ?thesis by (simp add: sky_loop.simps[of p r])
  next
    case (Some st)
    obtain p' r' c where st: "st = (p', r', c)" by (cases st) auto
    with Some have s: "search skyRe p r = Some (p', r', c)" by simp
    from search_words_some[OF skyRe_word_token s] obtain ws w
      where w: "words_from p r = ws @ w # words_from p' r'"
        "list_all (\<lambda>v. sky_tok v = None) ws" "sky_tok w = Some c" by blast
    from w(3) have tw: "sky_token w" by (simp add: sky_tok_def split: if_splits)
    have f: "filter sky_token (words_from p r) = w # filter sky_token (words_from p' r')"
      using w(1,2) tw filter_none[of sky_token ws] by (simp add: sky_tok_none)
    have "sky_loop p r layers = sky_loop p' r' (layers @ [layer_phrase c])"
      using s by (simp add: sky_loop.simps[of p r])
    also have "\<dots> = (layers @ [layer_phrase c]) @
        map layer_text (filter sky_token (words_from p' r'))"
      by (rule "1.IH"[OF s refl refl])
    finally show ?thesis using f sky_tok_phrase[OF w(3)] by simp
  qed
qed

section \<open>The sky sentences\<close>

definition cap :: "string \<Rightarrow> string" where
  "cap w = (case w of [] \<Rightarrow> [] | c # cs \<Rightarrow> to_upper c # cs)"

definition has_word :: "string list \<Rightarrow> string \<Rightarrow> bool" where
  "has_word ws s = list_ex (\<lambda>w. w \<in> set ws) (words_of s)"

definition sky_layers :: "string \<Rightarrow> string list" where
  "sky_layers s = map layer_text (filter sky_token (words_of s))"

lemma capitalize_cap: "w \<noteq> [] \<Longrightarrow> capitalize w = Inr (cap w)"
  by (cases w) (simp_all add: cap_def)

lemma layer_text_nonempty: "layer_text w \<noteq> []"
  by (simp add: layer_text_def)

lemma metar_layers_words:
  "metar_layers s =
     sky_layers s @ (if has_word [''CLR'', ''SKC'', ''CAVOK''] s then [''sky clear''] else [])"
  unfolding metar_layers_def Let_def sky_loop_words js_test_clearRe has_word_def sky_layers_def
  by (simp add: words_from_def del: set_simps)

lemma sky_sentence_join:
  "sky_sentence s =
     Inr (case metar_layers s of [] \<Rightarrow> [] | l # ls \<Rightarrow> [join '', '' (cap l # ls) @ ''.''])"
proof (cases "metar_layers s")
  case Nil
  then show ?thesis by (simp add: sky_sentence_def)
next
  case (Cons l ls)
  with metar_layers_nonempty[of s] have "l \<noteq> []" by auto
  then have c: "capitalize l = Inr (cap l)" by (rule capitalize_cap)
  show ?thesis
    unfolding sky_sentence_def Cons list.case c sum.case
    by (cases ls) simp_all
qed

lemma taf_sky_words:
  "taf_sky_sentence s =
     Inr (case find sky_token (words_of s) of
            Some w \<Rightarrow> [cap (layer_text w) @ ''.'']
          | None \<Rightarrow> if has_word [''SKC'', ''CAVOK''] s then [''Sky clear.''] else [])"
proof -
  have m: "js_match skyRe s = map_option sky_caps (find sky_token (words_of s))"
    unfolding js_match_words[OF skyRe_word_token] sky_tok_def[abs_def]
    by (rule first_some_find)
  show ?thesis
  proof (cases "find sky_token (words_of s)")
    case None
    with m show ?thesis
      by (simp add: taf_sky_sentence_def js_test_tafClearRe has_word_def del: set_simps)
  next
    case (Some w)
    then have "sky_token w" by (auto simp: find_Some_iff)
    then have "sky_tok w = Some (sky_caps w)" by (simp add: sky_tok_def)
    from sky_tok_phrase[OF this] have p: "layer_phrase (sky_caps w) = layer_text w" .
    have c: "capitalize (layer_text w) = Inr (cap (layer_text w))"
      by (rule capitalize_cap[OF layer_text_nonempty])
    from m Some show ?thesis
      by (simp add: taf_sky_sentence_def p c)
  qed
qed


section \<open>Wind tokens\<close>

text \<open>
  \<^verbatim>\<open>/\b(VRB|\d{3})(\d{2,3})(G(\d{2,3}))?KT\b/\<close> matches whole words only: a direction
  (\<open>VRB\<close> or three digits), a speed of two or three digits, an optional gust group and
  the unit. The fields of such a word are read off from the left; the digits of the speed
  end at \<open>G\<close> or \<open>K\<close>, so that the split is unique.
\<close>

definition is_dir :: "string \<Rightarrow> bool" where
  "is_dir d = (d = ''VRB'' \<or> (length d = 3 \<and> list_all is_digit d))"

definition digits23 :: "string \<Rightarrow> bool" where
  "digits23 x = (list_all is_digit x \<and> (length x = 2 \<or> length x = 3))"

definition wind_parts :: "string \<Rightarrow> (string \<times> string \<times> string) option" where
  "wind_parts w =
     (let d = take 3 w;
          sp = takeWhile is_digit (drop 3 w);
          r2 = dropWhile is_digit (drop 3 w);
          gd = (if take 1 r2 = ''G'' then takeWhile is_digit (drop 1 r2) else []);
          r3 = (if take 1 r2 = ''G'' then dropWhile is_digit (drop 1 r2) else r2)
      in if is_dir d \<and> digits23 sp \<and> (if take 1 r2 = ''G'' then digits23 gd else True) \<and> r3 = ''KT''
         then Some (d, sp, gd) else None)"

fun wind_caps :: "string \<times> string \<times> string \<Rightarrow> captures" where
  "wind_caps (d, sp, gd) =
     (if gd = [] then Map.empty(1 \<mapsto> d, 2 \<mapsto> sp)
      else Map.empty(1 \<mapsto> d, 2 \<mapsto> sp, 4 \<mapsto> gd, 3 \<mapsto> CHR ''G'' # gd))"

definition wind_tok :: "string \<Rightarrow> captures option" where
  "wind_tok w = map_option wind_caps (wind_parts w)"

definition gust_text :: "string \<Rightarrow> string" where
  "gust_text gd = (if gd = [] then [] else CHR ''G'' # gd)"

lemma not_digit_GK [simp]: "\<not> is_digit CHR ''G''" "\<not> is_digit CHR ''K''"
  by (simp_all add: is_digit_def code_def)

lemma takeWhile_digits_stop:
  assumes "list_all is_digit u" "t = [] \<or> \<not> is_digit (hd t)"
  shows "takeWhile is_digit (u @ t) = u \<and> dropWhile is_digit (u @ t) = t"
proof -
  have a: "\<forall>x\<in>set u. is_digit x" using assms(1) by (simp add: list_all_iff)
  have b: "takeWhile is_digit t = []" "dropWhile is_digit t = t"
    using assms(2) by (cases t; auto)+
  show ?thesis using a b by (simp add: takeWhile_append2 dropWhile_append2)
qed

lemma is_dir_length: "is_dir d \<Longrightarrow> length d = 3"
  by (auto simp: is_dir_def)

lemma digits23_nonempty: "digits23 x \<Longrightarrow> x \<noteq> [] \<and> list_all is_digit x"
  by (auto simp: digits23_def)

lemma wind_parts_iff:
  "wind_parts w = Some (d, sp, gd) \<longleftrightarrow>
     (w = d @ sp @ gust_text gd @ ''KT'' \<and> is_dir d \<and> digits23 sp \<and> (gd = [] \<or> digits23 gd))"
proof
  assume a: "wind_parts w = Some (d, sp, gd)"
  let ?r2 = "dropWhile is_digit (drop 3 w)"
  let ?g = "take 1 ?r2 = ''G''"
  from a have d: "d = take 3 w" "is_dir d" and sp: "sp = takeWhile is_digit (drop 3 w)" "digits23 sp"
    and gd: "gd = (if ?g then takeWhile is_digit (drop 1 ?r2) else [])"
      "if ?g then digits23 gd else True"
    and r3: "(if ?g then dropWhile is_digit (drop 1 ?r2) else ?r2) = ''KT''"
    unfolding wind_parts_def Let_def by (auto split: if_splits)
  have w: "w = d @ sp @ ?r2" unfolding d(1) sp(1) by simp
  show "w = d @ sp @ gust_text gd @ ''KT'' \<and> is_dir d \<and> digits23 sp \<and> (gd = [] \<or> digits23 gd)"
  proof (cases ?g)
    case True
    then obtain t where t: "?r2 = CHR ''G'' # t" by (cases ?r2) auto
    with True gd(1) r3 have "t = gd @ ''KT''"
      by (metis drop0 drop_Suc_Cons One_nat_def takeWhile_dropWhile_id)
    moreover from True gd(2) have g23: "digits23 gd" by simp
    then have "gd \<noteq> []" using digits23_nonempty by blast
    ultimately have "?r2 = gust_text gd @ ''KT''" using t by (simp add: gust_text_def)
    with w d(2) sp(2) g23 show ?thesis by simp
  next
    case False
    with gd(1) r3 have "gd = []" "?r2 = ''KT''" by simp_all
    with w d(2) sp(2) show ?thesis by (simp add: gust_text_def)
  qed
next
  assume "w = d @ sp @ gust_text gd @ ''KT'' \<and> is_dir d \<and> digits23 sp \<and> (gd = [] \<or> digits23 gd)"
  then have w: "w = d @ sp @ gust_text gd @ ''KT''" and d: "is_dir d" and sp: "digits23 sp"
    and gd: "gd = [] \<or> digits23 gd" by simp_all
  from is_dir_length[OF d] have t3: "take 3 w = d" "drop 3 w = sp @ gust_text gd @ ''KT''"
    unfolding w by simp_all
  have dsp: "list_all is_digit sp" using sp by (simp add: digits23_def)
  show "wind_parts w = Some (d, sp, gd)"
  proof (cases "gd = []")
    case True
    have "takeWhile is_digit (sp @ ''KT'') = sp \<and> dropWhile is_digit (sp @ ''KT'') = ''KT''"
      by (rule takeWhile_digits_stop[OF dsp]) simp
    with True d sp show ?thesis
      by (simp add: wind_parts_def Let_def t3 gust_text_def)
  next
    case False
    with gd have g23: "digits23 gd" by simp
    then have dgd: "list_all is_digit gd" by (simp add: digits23_def)
    have 1: "takeWhile is_digit (sp @ CHR ''G'' # gd @ ''KT'') = sp \<and>
             dropWhile is_digit (sp @ CHR ''G'' # gd @ ''KT'') = CHR ''G'' # gd @ ''KT''"
      by (rule takeWhile_digits_stop[OF dsp]) simp
    have 2: "takeWhile is_digit (gd @ ''KT'') = gd \<and> dropWhile is_digit (gd @ ''KT'') = ''KT''"
      by (rule takeWhile_digits_stop[OF dgd]) simp
    from False d sp g23 1 2 show ?thesis
      by (simp add: wind_parts_def Let_def t3 gust_text_def)
  qed
qed

lemma mem_dir:
  "st \<in> set (rmatch (Grp 1 (Alt (Lit ''VRB'') (Rep Digit 3 (Some 3)))) (p, r, c)) \<longleftrightarrow>
     (\<exists>d r'. r = d @ r' \<and> is_dir d \<and> st = (Some (last d), r', c(1 \<mapsto> d)))"
proof
  assume "st \<in> set (rmatch (Grp 1 (Alt (Lit ''VRB'') (Rep Digit 3 (Some 3)))) (p, r, c))"
  then have "st \<in> set (rmatch (Grp 1 (lits [''VRB''])) (p, r, c)) \<or>
             st \<in> set (rmatch (Grp 1 (Rep Digit 3 (Some 3))) (p, r, c))"
    unfolding mem_Grp mem_Alt lits_def by auto
  then show "\<exists>d r'. r = d @ r' \<and> is_dir d \<and> st = (Some (last d), r', c(1 \<mapsto> d))"
  proof
    assume "st \<in> set (rmatch (Grp 1 (lits [''VRB''])) (p, r, c))"
    then obtain r' where "r = ''VRB'' @ r'" "st = (last_char p ''VRB'', r', c(1 \<mapsto> ''VRB''))"
      unfolding mem_Grp_lits by auto
    then have "r = ''VRB'' @ r' \<and> is_dir ''VRB'' \<and> st = (Some (last ''VRB''), r', c(1 \<mapsto> ''VRB''))"
      by (simp add: is_dir_def)
    then show ?thesis by blast
  next
    assume "st \<in> set (rmatch (Grp 1 (Rep Digit 3 (Some 3))) (p, r, c))"
    then obtain u r' where "r = u @ r'" "list_all is_digit u" "length u = 3"
      "st = (last_char p u, r', c(1 \<mapsto> u))"
      unfolding mem_Grp_Rep by auto
    then have "r = u @ r' \<and> is_dir u \<and> st = (Some (last u), r', c(1 \<mapsto> u))"
      by (simp add: is_dir_def)
    then show ?thesis by blast
  qed
next
  assume "\<exists>d r'. r = d @ r' \<and> is_dir d \<and> st = (Some (last d), r', c(1 \<mapsto> d))"
  then obtain d r' where h: "r = d @ r'" "is_dir d" "st = (Some (last d), r', c(1 \<mapsto> d))" by blast
  from is_dir_length[OF h(2)] have ne: "d \<noteq> []" by auto
  from h(2) have "st \<in> set (rmatch (Grp 1 (lits [''VRB''])) (p, r, c)) \<or>
             st \<in> set (rmatch (Grp 1 (Rep Digit 3 (Some 3))) (p, r, c))"
    unfolding is_dir_def
  proof
    assume "d = ''VRB''"
    with h have "st \<in> set (rmatch (Grp 1 (lits [''VRB''])) (p, r, c))"
      unfolding mem_Grp_lits by auto
    then show ?thesis ..
  next
    assume "length d = 3 \<and> list_all is_digit d"
    with h ne have "st \<in> set (rmatch (Grp 1 (Rep Digit 3 (Some 3))) (p, r, c))"
      unfolding mem_Grp_Rep by (intro exI[of _ d] exI[of _ r']) auto
    then show ?thesis ..
  qed
  then show "st \<in> set (rmatch (Grp 1 (Alt (Lit ''VRB'') (Rep Digit 3 (Some 3)))) (p, r, c))"
    unfolding mem_Grp mem_Alt lits_def by auto
qed

lemma mem_d23:
  "st \<in> set (rmatch (Grp n (Rep Digit 2 (Some 3))) (p, r, c)) \<longleftrightarrow>
     (\<exists>u r'. r = u @ r' \<and> digits23 u \<and> st = (Some (last u), r', c(n \<mapsto> u)))"
proof
  assume "st \<in> set (rmatch (Grp n (Rep Digit 2 (Some 3))) (p, r, c))"
  then obtain u r' where h: "r = u @ r'" "list_all is_digit u" "2 \<le> length u" "length u \<le> 3"
    "st = (last_char p u, r', c(n \<mapsto> u))"
    unfolding mem_Grp_Rep by auto
  then have "u \<noteq> []" by auto
  with h have "r = u @ r' \<and> digits23 u \<and> st = (Some (last u), r', c(n \<mapsto> u))"
    by (auto simp: digits23_def)
  then show "\<exists>u r'. r = u @ r' \<and> digits23 u \<and> st = (Some (last u), r', c(n \<mapsto> u))" by blast
next
  assume "\<exists>u r'. r = u @ r' \<and> digits23 u \<and> st = (Some (last u), r', c(n \<mapsto> u))"
  then obtain u r' where h: "r = u @ r'" "digits23 u" "st = (Some (last u), r', c(n \<mapsto> u))" by blast
  from digits23_nonempty[OF h(2)] have "u \<noteq> []" by simp
  with h show "st \<in> set (rmatch (Grp n (Rep Digit 2 (Some 3))) (p, r, c))"
    unfolding mem_Grp_Rep by (intro exI[of _ u] exI[of _ r']) (auto simp: digits23_def)
qed

lemma mem_gust:
  "st \<in> set (rmatch (Opt (Grp 3 (Seq (Lit ''G'') (Grp 4 (Rep Digit 2 (Some 3)))))) (p, r, c)) \<longleftrightarrow>
     (\<exists>gd r'. r = CHR ''G'' # gd @ r' \<and> digits23 gd \<and>
        st = (Some (last gd), r', c(4 \<mapsto> gd, 3 \<mapsto> CHR ''G'' # gd))) \<or> st = (p, r, c)"
proof -
  have "st \<in> set (rmatch (Grp 3 (Seq (Lit ''G'') (Grp 4 (Rep Digit 2 (Some 3))))) (p, r, c)) \<longleftrightarrow>
     (\<exists>gd r'. r = CHR ''G'' # gd @ r' \<and> digits23 gd \<and>
        st = (Some (last gd), r', c(4 \<mapsto> gd, 3 \<mapsto> CHR ''G'' # gd)))"
  proof
    assume "st \<in> set (rmatch (Grp 3 (Seq (Lit ''G'') (Grp 4 (Rep Digit 2 (Some 3))))) (p, r, c))"
    then obtain p' r' c' s1 where a: "s1 \<in> set (rmatch (Lit ''G'') (p, r, c))"
      "(p', r', c') \<in> set (rmatch (Grp 4 (Rep Digit 2 (Some 3))) s1)"
      "st = (p', r', c'(3 \<mapsto> take (length r - length r') r))"
      unfolding mem_Grp[of st 3] mem_Seq by blast
    from a(1) obtain t where t: "r = CHR ''G'' # t" "s1 = (Some CHR ''G'', t, c)"
      unfolding mem_Lit by auto
    from a(2) obtain gd where g: "t = gd @ r'" "digits23 gd" "p' = Some (last gd)" "c' = c(4 \<mapsto> gd)"
      unfolding t(2) mem_d23 by auto
    have "take (length r - length r') r = CHR ''G'' # gd" unfolding t(1) g(1) by simp
    with a(3) t g have "r = CHR ''G'' # gd @ r' \<and> digits23 gd \<and>
        st = (Some (last gd), r', c(4 \<mapsto> gd, 3 \<mapsto> CHR ''G'' # gd))" by simp
    then show "\<exists>gd r'. r = CHR ''G'' # gd @ r' \<and> digits23 gd \<and>
        st = (Some (last gd), r', c(4 \<mapsto> gd, 3 \<mapsto> CHR ''G'' # gd))" by blast
  next
    assume "\<exists>gd r'. r = CHR ''G'' # gd @ r' \<and> digits23 gd \<and>
        st = (Some (last gd), r', c(4 \<mapsto> gd, 3 \<mapsto> CHR ''G'' # gd))"
    then obtain gd r' where h: "r = CHR ''G'' # gd @ r'" "digits23 gd"
      "st = (Some (last gd), r', c(4 \<mapsto> gd, 3 \<mapsto> CHR ''G'' # gd))" by blast
    have 1: "(Some CHR ''G'', gd @ r', c) \<in> set (rmatch (Lit ''G'') (p, r, c))"
      unfolding mem_Lit h(1) by simp
    have 2: "(Some (last gd), r', c(4 \<mapsto> gd))
        \<in> set (rmatch (Grp 4 (Rep Digit 2 (Some 3))) (Some CHR ''G'', gd @ r', c))"
      unfolding mem_d23 using h(2) by blast
    have 3: "take (length r - length r') r = CHR ''G'' # gd" unfolding h(1) by simp
    show "st \<in> set (rmatch (Grp 3 (Seq (Lit ''G'') (Grp 4 (Rep Digit 2 (Some 3))))) (p, r, c))"
      unfolding mem_Grp[of st 3] mem_Seq
      using 1 2 h(3) unfolding 3[symmetric]
      by (intro exI[of _ "Some (last gd)"] exI[of _ r'] exI[of _ "c(4 \<mapsto> gd)"] conjI
            exI[of _ "(Some CHR ''G'', gd @ r', c)"])
  qed
  then show ?thesis unfolding mem_Opt by blast
qed

lemma wind_tok_iff:
  "wind_tok w = Some c \<longleftrightarrow>
     (\<exists>d sp gd. w = d @ sp @ gust_text gd @ ''KT'' \<and> is_dir d \<and> digits23 sp \<and>
        (gd = [] \<or> digits23 gd) \<and> c = wind_caps (d, sp, gd))"
proof
  assume "wind_tok w = Some c"
  then obtain x where x: "wind_parts w = Some x" "c = wind_caps x"
    unfolding wind_tok_def by auto
  obtain d sp gd where "x = (d, sp, gd)" by (cases x) auto
  with x have "wind_parts w = Some (d, sp, gd)" "c = wind_caps (d, sp, gd)" by simp_all
  then show "\<exists>d sp gd. w = d @ sp @ gust_text gd @ ''KT'' \<and> is_dir d \<and> digits23 sp \<and>
        (gd = [] \<or> digits23 gd) \<and> c = wind_caps (d, sp, gd)"
    unfolding wind_parts_iff by blast
next
  assume "\<exists>d sp gd. w = d @ sp @ gust_text gd @ ''KT'' \<and> is_dir d \<and> digits23 sp \<and>
        (gd = [] \<or> digits23 gd) \<and> c = wind_caps (d, sp, gd)"
  then obtain d sp gd where "wind_parts w = Some (d, sp, gd)" "c = wind_caps (d, sp, gd)"
    unfolding wind_parts_iff by blast
  then show "wind_tok w = Some c" unfolding wind_tok_def by simp
qed

lemma word_GKT: "list_all is_word ''G''" "list_all is_word ''KT''" "list_all is_word ''VRB''"
  by (simp_all add: is_word_def is_digit_def code_def)

lemma wind_tok_wordy:
  assumes "wind_tok w = Some c"
  shows "w \<noteq> [] \<and> list_all is_word w"
proof -
  from assms obtain d sp gd where h: "w = d @ sp @ gust_text gd @ ''KT''" "is_dir d" "digits23 sp"
    "gd = [] \<or> digits23 gd"
    unfolding wind_tok_iff by blast
  have d: "list_all is_word d" using h(2) list_all_digit_word[of d] word_GKT(3)
    unfolding is_dir_def by blast
  have sp: "list_all is_word sp" using digits23_nonempty[OF h(3)] list_all_digit_word by blast
  have gd: "list_all is_word (gust_text gd)"
  proof (cases "gd = []")
    case True then show ?thesis by (simp add: gust_text_def)
  next
    case False
    with h(4) have "list_all is_word gd" using digits23_nonempty list_all_digit_word by blast
    with False word_GKT(1) show ?thesis by (simp add: gust_text_def)
  qed
  from d sp gd word_GKT(2) h(1) show ?thesis by simp
qed

lemma windRe_word_token: "word_token windRe wind_tok"
proof (rule word_tokenI)
  fix w c
  assume "wind_tok w = Some c"
  then show "w \<noteq> [] \<and> list_all is_word w" by (rule wind_tok_wordy)
next
  fix p r st
  let ?c0 = "Map.empty :: captures"
  let ?G1 = "Grp 1 (Alt (Lit ''VRB'') (Rep Digit 3 (Some 3)))"
  let ?G2 = "Grp 2 (Rep Digit 2 (Some 3))"
  let ?O3 = "Opt (Grp 3 (Seq (Lit ''G'') (Grp 4 (Rep Digit 2 (Some 3)))))"
  have chain: "st \<in> set (rmatch windRe (p, r, ?c0)) \<longleftrightarrow>
      (\<exists>s1 s2 s3 s4 s5. s1 \<in> set (rmatch WordB (p, r, ?c0)) \<and> s2 \<in> set (rmatch ?G1 s1) \<and>
         s3 \<in> set (rmatch ?G2 s2) \<and> s4 \<in> set (rmatch ?O3 s3) \<and>
         s5 \<in> set (rmatch (Lit ''KT'') s4) \<and> st \<in> set (rmatch WordB s5))"
    unfolding windRe_def seqs.simps alts.simps mem_Seq by blast
  show "st \<in> set (rmatch windRe (p, r, ?c0)) \<longleftrightarrow>
      (\<exists>w r' c. r = w @ r' \<and> wind_tok w = Some c \<and> at_boundary p r \<and>
         at_boundary (Some (last w)) r' \<and> st = (Some (last w), r', c))"
  proof
    assume "st \<in> set (rmatch windRe (p, r, ?c0))"
    then obtain s1 s2 s3 s4 s5 where
      s1: "s1 \<in> set (rmatch WordB (p, r, ?c0))" and s2: "s2 \<in> set (rmatch ?G1 s1)" and
      s3: "s3 \<in> set (rmatch ?G2 s2)" and s4: "s4 \<in> set (rmatch ?O3 s3)" and
      s5: "s5 \<in> set (rmatch (Lit ''KT'') s4)" and s6: "st \<in> set (rmatch WordB s5)"
      unfolding chain by blast
    from s1 have e1: "s1 = (p, r, ?c0)" and b1: "at_boundary p r" by (simp_all add: mem_WordB)
    from s2 obtain d r1 where d: "r = d @ r1" "is_dir d"
      and e2: "s2 = (Some (last d), r1, ?c0(1 \<mapsto> d))"
      unfolding e1 mem_dir by blast
    from s3 obtain sp r2 where sp: "r1 = sp @ r2" "digits23 sp"
      and e3: "s3 = (Some (last sp), r2, ?c0(1 \<mapsto> d, 2 \<mapsto> sp))"
      unfolding e2 mem_d23 by blast
    from s4 have "(\<exists>gd r'. r2 = CHR ''G'' # gd @ r' \<and> digits23 gd \<and>
        s4 = (Some (last gd), r', ?c0(1 \<mapsto> d, 2 \<mapsto> sp, 4 \<mapsto> gd, 3 \<mapsto> CHR ''G'' # gd))) \<or> s4 = s3"
      unfolding e3 mem_gust by blast
    then obtain gd r3 where gd: "r2 = gust_text gd @ r3" "gd = [] \<or> digits23 gd"
      and e4: "s4 = (Some (last (sp @ gust_text gd)), r3, wind_caps (d, sp, gd))"
    proof
      assume "\<exists>gd r'. r2 = CHR ''G'' # gd @ r' \<and> digits23 gd \<and>
        s4 = (Some (last gd), r', ?c0(1 \<mapsto> d, 2 \<mapsto> sp, 4 \<mapsto> gd, 3 \<mapsto> CHR ''G'' # gd))"
      then obtain gd r' where h: "r2 = CHR ''G'' # gd @ r'" "digits23 gd"
        "s4 = (Some (last gd), r', ?c0(1 \<mapsto> d, 2 \<mapsto> sp, 4 \<mapsto> gd, 3 \<mapsto> CHR ''G'' # gd))" by blast
      from digits23_nonempty[OF h(2)] have "gd \<noteq> []" by simp
      with h have "r2 = gust_text gd @ r'" "gd = [] \<or> digits23 gd"
        "s4 = (Some (last (sp @ gust_text gd)), r', wind_caps (d, sp, gd))"
        by (auto simp: gust_text_def)
      then show ?thesis by (rule that)
    next
      assume "s4 = s3"
      with e3 digits23_nonempty[OF sp(2)] have "r2 = gust_text [] @ r2" "[] = ([]::string) \<or> digits23 []"
        "s4 = (Some (last (sp @ gust_text [])), r2, wind_caps (d, sp, []))"
        by (auto simp: gust_text_def)
      then show ?thesis by (rule that)
    qed
    from s5 obtain r' where kt: "r3 = ''KT'' @ r'"
      and e5: "s5 = (Some CHR ''T'', r', wind_caps (d, sp, gd))"
      unfolding e4 mem_Lit by auto
    from s6 have e6: "st = s5" and b6: "at_boundary (Some CHR ''T'') r'"
      unfolding e5 mem_WordB by simp_all
    let ?w = "d @ sp @ gust_text gd @ ''KT''"
    have tok: "wind_tok ?w = Some (wind_caps (d, sp, gd))"
      unfolding wind_tok_iff using d(2) sp(2) gd(2) by blast
    have lw: "last ?w = CHR ''T''" by simp
    have "r = ?w @ r'" using d(1) sp(1) gd(1) kt by simp
    with tok b1 b6 e6 e5 lw
    have "r = ?w @ r' \<and> wind_tok ?w = Some (wind_caps (d, sp, gd)) \<and> at_boundary p r \<and>
         at_boundary (Some (last ?w)) r' \<and> st = (Some (last ?w), r', wind_caps (d, sp, gd))"
      by simp
    then show "\<exists>w r' c. r = w @ r' \<and> wind_tok w = Some c \<and> at_boundary p r \<and>
         at_boundary (Some (last w)) r' \<and> st = (Some (last w), r', c)" by blast
  next
    assume "\<exists>w r' c. r = w @ r' \<and> wind_tok w = Some c \<and> at_boundary p r \<and>
         at_boundary (Some (last w)) r' \<and> st = (Some (last w), r', c)"
    then obtain w r' c where h: "r = w @ r'" "wind_tok w = Some c" "at_boundary p r"
      "at_boundary (Some (last w)) r'" "st = (Some (last w), r', c)" by blast
    from h(2) obtain d sp gd where t: "w = d @ sp @ gust_text gd @ ''KT''" "is_dir d" "digits23 sp"
      "gd = [] \<or> digits23 gd" "c = wind_caps (d, sp, gd)"
      unfolding wind_tok_iff by blast
    have lw: "last w = CHR ''T''" unfolding t(1) by simp
    have 1: "(p, r, ?c0) \<in> set (rmatch WordB (p, r, ?c0))" using h(3) by (simp add: mem_WordB)
    have 2: "(Some (last d), sp @ gust_text gd @ ''KT'' @ r', ?c0(1 \<mapsto> d))
        \<in> set (rmatch ?G1 (p, r, ?c0))"
      unfolding mem_dir using t(1,2) h(1) by auto
    have 3: "(Some (last sp), gust_text gd @ ''KT'' @ r', ?c0(1 \<mapsto> d, 2 \<mapsto> sp))
        \<in> set (rmatch ?G2 (Some (last d), sp @ gust_text gd @ ''KT'' @ r', ?c0(1 \<mapsto> d)))"
      unfolding mem_d23 using t(3) by blast
    have 4: "(Some (last (sp @ gust_text gd)), ''KT'' @ r', c)
        \<in> set (rmatch ?O3 (Some (last sp), gust_text gd @ ''KT'' @ r', ?c0(1 \<mapsto> d, 2 \<mapsto> sp)))"
    proof (cases "gd = []")
      case True
      with t(5) show ?thesis unfolding mem_gust by (simp add: gust_text_def)
    next
      case False
      with t(4) have g: "digits23 gd" by simp
      have "gust_text gd @ ''KT'' @ r' = CHR ''G'' # gd @ ''KT'' @ r'"
        "last (sp @ gust_text gd) = last gd"
        "c = ?c0(1 \<mapsto> d, 2 \<mapsto> sp, 4 \<mapsto> gd, 3 \<mapsto> CHR ''G'' # gd)"
        using False t(5) by (simp_all add: gust_text_def)
      then show ?thesis unfolding mem_gust using g by blast
    qed
    have 5: "(Some CHR ''T'', r', c)
        \<in> set (rmatch (Lit ''KT'') (Some (last (sp @ gust_text gd)), ''KT'' @ r', c))"
      unfolding mem_Lit by simp
    have 6: "st \<in> set (rmatch WordB (Some CHR ''T'', r', c))"
      using h(4,5) lw by (simp add: mem_WordB)
    from 1 2 3 4 5 6 show "st \<in> set (rmatch windRe (p, r, ?c0))" unfolding chain by blast
  qed
qed

section \<open>The wind sentence\<close>

text \<open>
  The sentence of the wind block for a token with direction \<open>d\<close>, speed \<open>sp\<close> and
  gust \<open>gd\<close> (empty when the token has no gust group).
\<close>

definition wind_text :: "string \<Rightarrow> string \<times> string \<times> string \<Rightarrow> string" where
  "wind_text label t =
     (case t of (d, sp, gd) \<Rightarrow>
        if parseInt sp = IntV 0 then ''Winds calm.''
        else label @ '' '' @ (if d = ''VRB'' then ''variable'' else d @ [deg]) @ '' at '' @
             to_string (parseInt sp) @ '' knots'' @
             (if gd = [] then [] else '' gusting '' @ to_string (parseInt gd) @ '' knots'') @ ''.'')"

lemma first_some_map:
  "first_some (\<lambda>w. map_option g (f w)) ws = map_option g (first_some f ws)"
  by (induction ws) (auto split: option.splits)

lemma js_match_windRe:
  "js_match windRe s = map_option wind_caps (first_some wind_parts (words_of s))"
  unfolding js_match_words[OF windRe_word_token] wind_tok_def[abs_def]
  by (rule first_some_map)

lemma wind_caps_sentence:
  "(let windMatch = wind_caps (d, sp, gd);
        dir = (if windMatch 1 = Some ''VRB'' then ''variable'' else grp windMatch 1 @ [deg]);
        spd = parseInt (grp windMatch 2);
        gust = (case windMatch 4 of
                  None \<Rightarrow> []
                | Some g \<Rightarrow>
                    if g = [] then []
                    else '' gusting '' @ to_string (parseInt g) @ '' knots'')
    in [if spd = IntV 0 then ''Winds calm.''
        else label @ '' '' @ dir @ '' at '' @ to_string spd @ '' knots'' @ gust @ ''.''])
   = [wind_text label (d, sp, gd)]"
  by (simp add: wind_text_def grp_def Let_def)

lemma wind_sentence_words:
  "wind_sentence label s =
     (case first_some wind_parts (words_of s) of None \<Rightarrow> [] | Some t \<Rightarrow> [wind_text label t])"
proof (cases "first_some wind_parts (words_of s)")
  case None
  then show ?thesis unfolding wind_sentence_def js_match_windRe by simp
next
  case (Some t)
  obtain d sp gd where t: "t = (d, sp, gd)" by (cases t) auto
  show ?thesis
    unfolding wind_sentence_def js_match_windRe Some t option.map option.case
    using wind_caps_sentence[of d sp gd label] unfolding Let_def .
qed

lemma words_of_has_word: "words_of s \<noteq> [] \<Longrightarrow> \<exists>x\<in>set s. is_word x"
  by (induction s rule: words_of.induct) (auto split: if_splits)

lemma word_not_space: "is_word x \<Longrightarrow> \<not> is_space x"
  by (auto simp: is_word_def is_space_def is_digit_def)

lemma dropWhile_keeps: "x \<in> set s \<Longrightarrow> \<not> P x \<Longrightarrow> x \<in> set (dropWhile P s)"
  by (induction s) auto

lemma words_not_blank:
  assumes "words_of s \<noteq> []"
  shows "s \<noteq> [] \<and> js_trim s \<noteq> []"
proof -
  from words_of_has_word[OF assms] obtain x where x: "x \<in> set s" "is_word x" by blast
  from word_not_space[OF x(2)] have ns: "\<not> is_space x" .
  from dropWhile_keeps[of x s is_space] x(1) ns
  have "x \<in> set (rev (dropWhile is_space s))" by simp
  from dropWhile_keeps[of x "rev (dropWhile is_space s)" is_space] this ns
  have "dropWhile is_space (rev (dropWhile is_space s)) \<noteq> []"
    by auto
  with x(1) show ?thesis by (auto simp: js_trim_def)
qed

lemma first_some_words: "first_some f ws = Some y \<Longrightarrow> ws \<noteq> []"
  by (cases ws) auto

text \<open>
  Claim C7. When the wind token of a report, the first of its words that has the form of a
  wind group, has a speed field that reads as 0, the wind block of both translators pushes
  the fixed sentence \<open>Winds calm.\<close> and nothing else, whatever the direction field
  (\<open>VRB\<close> or three digits) and whether or not a gust group follows. The METAR
  translation then begins with that sentence; the TAF translation has it right after the
  sentence of the validity period, when there is one.
\<close>

theorem calm_wind:
  "first_some wind_parts (words_of s) = Some (d, sp, gd) \<longrightarrow> parseInt sp = IntV 0 \<longrightarrow>
     wind_sentence ''Wind'' s = [''Winds calm.''] \<and>
     wind_sentence ''Initial wind'' s = [''Winds calm.''] \<and>
     (\<exists>wx sky temp. weather_sentence s = Inr wx \<and> sky_sentence s = Inr sky \<and>
        temperature_sentence s = Inr temp \<and>
        translateMetar s =
          Inr (join '' '' (''Winds calm.'' # visibility_sentence s @ wx @ sky @ temp @
                           altimeter_sentence s))) \<and>
     (\<exists>sky. taf_sky_sentence s = Inr sky \<and>
        translateTaf s =
          Inr (join '' '' (period_sentence s @ ''Winds calm.'' # visibility_sentence s @ sky @
                           change_sentence s)))"
proof (intro impI)
  assume f: "first_some wind_parts (words_of s) = Some (d, sp, gd)" and z: "parseInt sp = IntV 0"
  have w: "wind_sentence label s = [''Winds calm.'']" for label
    unfolding wind_sentence_words f using z by (simp add: wind_text_def)
  from words_not_blank[OF first_some_words[OF f]] have nb: "s \<noteq> []" "js_trim s \<noteq> []" by simp_all
  from weather_sentence_ok[of s] obtain wx where wx: "weather_sentence s = Inr wx" by blast
  from sky_sentence_ok[of s] obtain sky where sky: "sky_sentence s = Inr sky" by blast
  from temperature_sentence_ok[of s] obtain tp where tp: "temperature_sentence s = Inr tp" by blast
  from taf_sky_sentence_ok[of s] obtain tsky where tsky: "taf_sky_sentence s = Inr tsky" by blast
  have m: "translateMetar s =
      Inr (join '' '' (''Winds calm.'' # visibility_sentence s @ wx @ sky @ tp @
                       altimeter_sentence s))"
    unfolding translateMetar_def metar_parts_def wx sky tp w by simp
  have t: "translateTaf s =
      Inr (join '' '' (period_sentence s @ ''Winds calm.'' # visibility_sentence s @ tsky @
                       change_sentence s))"
    unfolding translateTaf_def taf_parts_def tsky w using nb by simp
  from w[of "''Wind''"] w[of "''Initial wind''"] wx sky tp m tsky t
  show "wind_sentence ''Wind'' s = [''Winds calm.''] \<and>
     wind_sentence ''Initial wind'' s = [''Winds calm.''] \<and>
     (\<exists>wx sky temp. weather_sentence s = Inr wx \<and> sky_sentence s = Inr sky \<and>
        temperature_sentence s = Inr temp \<and>
        translateMetar s =
          Inr (join '' '' (''Winds calm.'' # visibility_sentence s @ wx @ sky @ temp @
                           altimeter_sentence s))) \<and>
     (\<exists>sky. taf_sky_sentence s = Inr sky \<and>
        translateTaf s =
          Inr (join '' '' (period_sentence s @ ''Winds calm.'' # visibility_sentence s @ sky @
                           change_sentence s)))"
    by blast
qed

text \<open>The examples of the specification, with and without a gust group.\<close>

lemma eval_wind_tokens:
  "first_some wind_parts (words_of ''00000KT'') = Some (''000'', ''00'', [])"
  "first_some wind_parts (words_of ''VRB00KT'') = Some (''VRB'', ''00'', [])"
  "first_some wind_parts (words_of ''27000G15KT'') = Some (''270'', ''00'', ''15'')"
  "first_some wind_parts (words_of ''VRB000G15KT'') = Some (''VRB'', ''000'', ''15'')"
  "parseInt ''00'' = IntV 0" "parseInt ''000'' = IntV 0"
  by code_simp+

lemma eval_calm_translations:
  "translateMetar ''VRB00KT'' = Inr ''Winds calm.''"
  "translateTaf ''00000KT'' = Inr ''Winds calm.''"
  by code_simp+

theorem calm_wind_witness:
  "wind_sentence ''Wind'' ''00000KT'' = [''Winds calm.''] \<and>
   wind_sentence ''Wind'' ''VRB00KT'' = [''Winds calm.''] \<and>
   wind_sentence ''Initial wind'' ''27000G15KT'' = [''Winds calm.''] \<and>
   wind_sentence ''Initial wind'' ''VRB000G15KT'' = [''Winds calm.''] \<and>
   translateMetar ''VRB00KT'' = Inr ''Winds calm.'' \<and>
   translateTaf ''00000KT'' = Inr ''Winds calm.''"
proof -
  have 1: "wind_sentence ''Wind'' ''00000KT'' = [''Winds calm.'']"
    using calm_wind[of "''00000KT''" "''000''" "''00''" "[]"] eval_wind_tokens(1,5) by blast
  have 2: "wind_sentence ''Wind'' ''VRB00KT'' = [''Winds calm.'']"
    using calm_wind[of "''VRB00KT''" "''VRB''" "''00''" "[]"] eval_wind_tokens(2,5) by blast
  have 3: "wind_sentence ''Initial wind'' ''27000G15KT'' = [''Winds calm.'']"
    using calm_wind[of "''27000G15KT''" "''270''" "''00''" "''15''"] eval_wind_tokens(3,5) by blast
  have 4: "wind_sentence ''Initial wind'' ''VRB000G15KT'' = [''Winds calm.'']"
    using calm_wind[of "''VRB000G15KT''" "''VRB''" "''000''" "''15''"] eval_wind_tokens(4,6) by blast
  from 1 2 3 4 eval_calm_translations show ?thesis by (intro conjI)
qed

section \<open>Expressions that begin at a word start\<close>

text \<open>
  The four expressions of \<open>parseVisibility\<close> begin with \<open>\b\<close> followed by a word
  character, so they can match only where a word of the text starts. \<open>word_starts\<close> lists
  these places, each as the text from there on, from left to right. An expression \<open>reads\<close>
  a form when its first match at such a place is what a left-to-right reader of the form
  finds there; its search is then the first place at which the reader succeeds.
\<close>

fun word_starts :: "char option \<Rightarrow> string \<Rightarrow> string list" where
  "word_starts p [] = []"
| "word_starts p (x # xs) =
     (if \<not> word_before p \<and> is_word x then [x # xs] else []) @ word_starts (Some x) xs"

definition first_form :: "(string \<Rightarrow> 'a option) \<Rightarrow> string \<Rightarrow> 'a option" where
  "first_form form s = first_some form (word_starts None s)"

definition reads :: "regex \<Rightarrow> (string \<Rightarrow> 'a option) \<Rightarrow> ('a \<Rightarrow> captures) \<Rightarrow> bool" where
  "reads re form caps =
     (\<forall>p r. map_option (\<lambda>(p', r', c). c) (first_of (rmatch re (p, r, Map.empty))) =
        (if \<not> word_before p \<and> word_at r then map_option caps (form r) else None))"

lemma readsI:
  assumes sound: "\<And>p r p' r' c. (p', r', c) \<in> set (rmatch re (p, r, Map.empty)) \<Longrightarrow>
      \<not> word_before p \<and> word_at r \<and> (\<exists>x. form r = Some x \<and> c = caps x)"
    and complete: "\<And>p r x. \<not> word_before p \<Longrightarrow> form r = Some x \<Longrightarrow>
      rmatch re (p, r, Map.empty) \<noteq> []"
  shows "reads re form caps"
  unfolding reads_def
proof (intro allI)
  fix p r
  show "map_option (\<lambda>(p', r', c). c) (first_of (rmatch re (p, r, Map.empty))) =
        (if \<not> word_before p \<and> word_at r then map_option caps (form r) else None)"
  proof (cases "rmatch re (p, r, Map.empty)")
    case Nil
    have "form r = None" if "\<not> word_before p"
    proof (cases "form r")
      case (Some x)
      from complete[OF that Some] Nil show ?thesis by simp
    qed simp
    with Nil show ?thesis by simp
  next
    case (Cons st sts)
    obtain p' r' c where st: "st = (p', r', c)" by (cases st) auto
    with Cons have "(p', r', c) \<in> set (rmatch re (p, r, Map.empty))" by simp
    from sound[OF this] Cons st show ?thesis by auto
  qed
qed

lemma search_forms:
  assumes "reads re form caps"
  shows "map_option (\<lambda>(p', r', c). c) (search re p r) =
         map_option caps (first_some form (word_starts p r))"
proof (induction r arbitrary: p)
  case Nil
  from assms[unfolded reads_def, rule_format, of p "[]"] show ?case by simp
next
  case (Cons x xs)
  note a = assms[unfolded reads_def, rule_format, of p "x # xs"]
  show ?case
  proof (cases "first_of (rmatch re (p, x # xs, Map.empty))")
    case None
    with a have "\<not> word_before p \<and> is_word x \<longrightarrow> form (x # xs) = None" by auto
    with None Cons.IH[of "Some x"] show ?thesis by auto
  next
    case (Some st)
    with a have w: "\<not> word_before p \<and> is_word x"
      by (auto split: if_splits)
    with Some a obtain y where "form (x # xs) = Some y"
      by (cases "form (x # xs)") auto
    with w Some a show ?thesis by auto
  qed
qed

lemma js_match_forms:
  assumes "reads re form caps"
  shows "js_match re s = map_option caps (first_form form s)"
  unfolding js_match_def first_form_def by (rule search_forms[OF assms])

lemma js_test_forms:
  assumes "reads re form caps"
  shows "js_test re s \<longleftrightarrow> first_form form s \<noteq> None"
proof -
  have "js_test re s \<longleftrightarrow> js_match re s \<noteq> None"
    by (simp add: js_test_def js_match_def)
  then show ?thesis unfolding js_match_forms[OF assms] by simp
qed

section \<open>The surface forms of the visibility\<close>

text \<open>
  Readers of the four forms, from the left of a text. A run of digits is read to its end,
  and so is a run of white space; the unit \<open>SM\<close> must end a word. The fields come back
  as the digit strings found.
\<close>

definition digits1 :: "string \<Rightarrow> bool" where
  "digits1 u = (u \<noteq> [] \<and> list_all is_digit u)"

definition digits_pre :: "string \<Rightarrow> (string \<times> string) option" where
  "digits_pre r =
     (let a = takeWhile is_digit r in if a = [] then None else Some (a, dropWhile is_digit r))"

definition spaces_pre :: "string \<Rightarrow> string option" where
  "spaces_pre r = (if takeWhile is_space r = [] then None else Some (dropWhile is_space r))"

definition lit_pre :: "string \<Rightarrow> string \<Rightarrow> string option" where
  "lit_pre w r = (if take (length w) r = w then Some (drop (length w) r) else None)"

definition unit_end :: "string \<Rightarrow> unit option" where
  "unit_end r =
     (case lit_pre ''SM'' r of None \<Rightarrow> None | Some r' \<Rightarrow> if word_at r' then None else Some ())"

text \<open>\<open><num>/<den>SM\<close>, the tail that three of the forms share.\<close>

definition fraction :: "string \<Rightarrow> (string \<times> string) option" where
  "fraction r =
     Option.bind (digits_pre r) (\<lambda>(n, r1).
     Option.bind (lit_pre ''/'' r1) (\<lambda>r2.
     Option.bind (digits_pre r2) (\<lambda>(d, r3).
     map_option (\<lambda>_. (n, d)) (unit_end r3))))"

text \<open>\<open>M<num>/<den>SM\<close>, \<open><whole> <num>/<den>SM\<close>, \<open><num>/<den>SM\<close> and \<open><digits>SM\<close>.\<close>

definition less_form :: "string \<Rightarrow> unit option" where
  "less_form r = Option.bind (lit_pre ''M'' r) (\<lambda>r1. map_option (\<lambda>_. ()) (fraction r1))"

definition mixed_form :: "string \<Rightarrow> (string \<times> string \<times> string) option" where
  "mixed_form r =
     Option.bind (digits_pre r) (\<lambda>(w, r1).
     Option.bind (spaces_pre r1) (\<lambda>r2.
     map_option (\<lambda>(n, d). (w, n, d)) (fraction r2)))"

definition frac_form :: "string \<Rightarrow> (string \<times> string) option" where
  "frac_form r = fraction r"

definition whole_form :: "string \<Rightarrow> string option" where
  "whole_form r = Option.bind (digits_pre r) (\<lambda>(n, r1). map_option (\<lambda>_. n) (unit_end r1))"

lemma digits_pre_iff:
  "digits_pre r = Some (a, r') \<longleftrightarrow> r = a @ r' \<and> digits1 a \<and> (r' = [] \<or> \<not> is_digit (hd r'))"
proof
  assume "digits_pre r = Some (a, r')"
  then have a: "a = takeWhile is_digit r" "a \<noteq> []" "r' = dropWhile is_digit r"
    by (auto simp: digits_pre_def Let_def split: if_splits)
  have "list_all is_digit a" unfolding a(1) list_all_iff by (meson set_takeWhileD)
  moreover have "r' = [] \<or> \<not> is_digit (hd r')" unfolding a(3) using hd_dropWhile[of is_digit r] by auto
  ultimately show "r = a @ r' \<and> digits1 a \<and> (r' = [] \<or> \<not> is_digit (hd r'))"
    using a by (simp add: digits1_def)
next
  assume h: "r = a @ r' \<and> digits1 a \<and> (r' = [] \<or> \<not> is_digit (hd r'))"
  then have "list_all is_digit a" "a \<noteq> []" by (simp_all add: digits1_def)
  with h takeWhile_digits_stop[of a r'] show "digits_pre r = Some (a, r')"
    by (simp add: digits_pre_def Let_def)
qed

lemma spaces_pre_iff:
  "spaces_pre r = Some r' \<longleftrightarrow>
     (\<exists>u. r = u @ r' \<and> u \<noteq> [] \<and> list_all is_space u \<and> (r' = [] \<or> \<not> is_space (hd r')))"
proof
  assume "spaces_pre r = Some r'"
  then have a: "takeWhile is_space r \<noteq> []" "r' = dropWhile is_space r"
    by (auto simp: spaces_pre_def split: if_splits)
  have "list_all is_space (takeWhile is_space r)" unfolding list_all_iff by (meson set_takeWhileD)
  moreover have "r' = [] \<or> \<not> is_space (hd r')" unfolding a(2) using hd_dropWhile[of is_space r] by auto
  ultimately have "r = takeWhile is_space r @ r' \<and> takeWhile is_space r \<noteq> [] \<and>
      list_all is_space (takeWhile is_space r) \<and> (r' = [] \<or> \<not> is_space (hd r'))"
    using a by simp
  then show "\<exists>u. r = u @ r' \<and> u \<noteq> [] \<and> list_all is_space u \<and> (r' = [] \<or> \<not> is_space (hd r'))"
    by blast
next
  assume "\<exists>u. r = u @ r' \<and> u \<noteq> [] \<and> list_all is_space u \<and> (r' = [] \<or> \<not> is_space (hd r'))"
  then obtain u where h: "r = u @ r'" "u \<noteq> []" "list_all is_space u"
    "r' = [] \<or> \<not> is_space (hd r')" by blast
  have a: "\<forall>x\<in>set u. is_space x" using h(3) by (simp add: list_all_iff)
  have b: "takeWhile is_space r' = []" "dropWhile is_space r' = r'"
    using h(4) by (cases r'; auto)+
  have "takeWhile is_space r = u" "dropWhile is_space r = r'"
    unfolding h(1) using a b by (simp_all add: takeWhile_append2 dropWhile_append2)
  with h(2) show "spaces_pre r = Some r'" by (simp add: spaces_pre_def)
qed

lemma lit_pre_iff: "lit_pre w r = Some r' \<longleftrightarrow> r = w @ r'"
  unfolding lit_pre_def by (metis append_eq_conv_conj append_take_drop_id option.distinct(1) option.inject)

lemma unit_end_iff: "unit_end r = Some u \<longleftrightarrow> (\<exists>r'. r = ''SM'' @ r' \<and> \<not> word_at r')"
proof (cases "lit_pre ''SM'' r")
  case None
  then have "\<And>r'. r \<noteq> ''SM'' @ r'" using lit_pre_iff[of "''SM''" r] by auto
  with None show ?thesis by (auto simp: unit_end_def)
next
  case (Some r')
  then have "r = ''SM'' @ r'" by (simp add: lit_pre_iff)
  with Some show ?thesis by (auto simp: unit_end_def)
qed

lemma not_digit_sep [simp]: "\<not> is_digit CHR ''/''" "\<not> is_digit CHR ''S''"
  by (simp_all add: is_digit_def code_def)

lemma fraction_iff:
  "fraction r = Some (n, d) \<longleftrightarrow>
     (\<exists>rest. r = n @ ''/'' @ d @ ''SM'' @ rest \<and> digits1 n \<and> digits1 d \<and> \<not> word_at rest)"
proof
  assume "fraction r = Some (n, d)"
  then obtain r1 r2 r3 u where a: "digits_pre r = Some (n, r1)" "lit_pre ''/'' r1 = Some r2"
    "digits_pre r2 = Some (d, r3)" "unit_end r3 = Some u"
    unfolding fraction_def by (auto simp: bind_eq_Some_conv)
  from a(4) obtain rest where r3: "r3 = ''SM'' @ rest" "\<not> word_at rest"
    unfolding unit_end_iff by blast
  from a(1,2,3) r3 have "r = n @ ''/'' @ d @ ''SM'' @ rest \<and> digits1 n \<and> digits1 d \<and> \<not> word_at rest"
    unfolding digits_pre_iff lit_pre_iff by simp
  then show "\<exists>rest. r = n @ ''/'' @ d @ ''SM'' @ rest \<and> digits1 n \<and> digits1 d \<and> \<not> word_at rest"
    by blast
next
  assume "\<exists>rest. r = n @ ''/'' @ d @ ''SM'' @ rest \<and> digits1 n \<and> digits1 d \<and> \<not> word_at rest"
  then obtain rest where h: "r = n @ ''/'' @ d @ ''SM'' @ rest" "digits1 n" "digits1 d"
    "\<not> word_at rest" by blast
  have 1: "digits_pre r = Some (n, ''/'' @ d @ ''SM'' @ rest)"
    unfolding digits_pre_iff using h(1,2) by simp
  have 2: "lit_pre ''/'' (''/'' @ d @ ''SM'' @ rest) = Some (d @ ''SM'' @ rest)"
    unfolding lit_pre_iff by simp
  have 3: "digits_pre (d @ ''SM'' @ rest) = Some (d, ''SM'' @ rest)"
    unfolding digits_pre_iff using h(3) by simp
  have 4: "unit_end (''SM'' @ rest) = Some ()"
    unfolding unit_end_iff using h(4) by blast
  from 1 2 3 4 show "fraction r = Some (n, d)"
    by (simp add: fraction_def)
qed

subsection \<open>The expressions read the forms\<close>

lemma reads_bodyI:
  assumes sound: "\<And>p r p' r' c. (p', r', c) \<in> set (rmatch body (p, r, Map.empty)) \<Longrightarrow>
      \<exists>x. form r = Some x \<and> c = caps x"
    and complete: "\<And>p r x. form r = Some x \<Longrightarrow> rmatch body (p, r, Map.empty) \<noteq> []"
    and wordy: "\<And>r x. form r = Some x \<Longrightarrow> word_at r"
  shows "reads (Seq WordB body) form caps"
proof (rule readsI)
  fix p r p' r' c
  assume "(p', r', c) \<in> set (rmatch (Seq WordB body) (p, r, Map.empty))"
  then have b: "at_boundary p r" and m: "(p', r', c) \<in> set (rmatch body (p, r, Map.empty))"
    unfolding mem_Seq mem_WordB by auto
  from sound[OF m] obtain x where x: "form r = Some x" "c = caps x" by blast
  from wordy[OF x(1)] b have "\<not> word_before p \<and> word_at r" by (simp add: at_boundary_def)
  with x show "\<not> word_before p \<and> word_at r \<and> (\<exists>x. form r = Some x \<and> c = caps x)" by blast
next
  fix p r x
  assume nb: "\<not> word_before p" and f: "form r = Some x"
  from wordy[OF f] nb have b: "at_boundary p r" by (simp add: at_boundary_def)
  from complete[OF f, of p] obtain st where "st \<in> set (rmatch body (p, r, Map.empty))"
    by (cases "rmatch body (p, r, Map.empty)") auto
  with b have "st \<in> set (rmatch (Seq WordB body) (p, r, Map.empty))"
    unfolding mem_Seq mem_WordB by blast
  then show "rmatch (Seq WordB body) (p, r, Map.empty) \<noteq> []" by auto
qed

definition digit_field :: "regex \<Rightarrow> (captures \<Rightarrow> string \<Rightarrow> captures) \<Rightarrow> bool" where
  "digit_field D f =
     (\<forall>st p r c. st \<in> set (rmatch D (p, r, c)) \<longleftrightarrow>
        (\<exists>u r'. r = u @ r' \<and> digits1 u \<and> st = (Some (last u), r', f c u)))"

lemma digit_field_Rep: "digit_field (Rep Digit 1 None) (\<lambda>c u. c)"
  unfolding digit_field_def
proof (intro allI)
  fix st :: mstate and p :: "char option" and r :: string and c :: captures
  have "(list_all is_digit u \<and> 1 \<le> length u \<and> st = (last_char p u, r', c)) \<longleftrightarrow>
        (digits1 u \<and> st = (Some (last u), r', c))" for u :: string and r'
    by (cases u) (auto simp: digits1_def)
  then show "st \<in> set (rmatch (Rep Digit 1 None) (p, r, c)) \<longleftrightarrow>
      (\<exists>u r'. r = u @ r' \<and> digits1 u \<and> st = (Some (last u), r', c))"
    unfolding mem_Rep by simp
qed

lemma digit_field_Grp: "digit_field (Grp k (Rep Digit 1 None)) (\<lambda>c u. c(k \<mapsto> u))"
  unfolding digit_field_def
proof (intro allI)
  fix st :: mstate and p :: "char option" and r :: string and c :: captures
  have "(list_all is_digit u \<and> 1 \<le> length u \<and> st = (last_char p u, r', c(k \<mapsto> u))) \<longleftrightarrow>
        (digits1 u \<and> st = (Some (last u), r', c(k \<mapsto> u)))" for u :: string and r'
    by (cases u) (auto simp: digits1_def)
  then show "st \<in> set (rmatch (Grp k (Rep Digit 1 None)) (p, r, c)) \<longleftrightarrow>
      (\<exists>u r'. r = u @ r' \<and> digits1 u \<and> st = (Some (last u), r', c(k \<mapsto> u)))"
    unfolding mem_Grp_Rep by simp
qed

lemma mem_spaces:
  "st \<in> set (rmatch (Rep Space 1 None) (p, r, c)) \<longleftrightarrow>
     (\<exists>u r'. r = u @ r' \<and> u \<noteq> [] \<and> list_all is_space u \<and> st = (Some (last u), r', c))"
proof -
  have "(list_all is_space u \<and> 1 \<le> length u \<and> st = (last_char p u, r', c)) \<longleftrightarrow>
        (u \<noteq> [] \<and> list_all is_space u \<and> st = (Some (last u), r', c))" for u :: string and r'
    by (cases u) auto
  then show ?thesis unfolding mem_Rep by simp
qed

lemma is_word_M [simp]: "is_word CHR ''M''"
  by (simp add: is_word_def is_digit_def code_def)

lemma mem_fraction:
  assumes D1: "digit_field D1 f1" and D2: "digit_field D2 f2"
  shows "st \<in> set (rmatch (Seq D1 (Seq (Lit ''/'') (Seq D2 (Seq (Lit ''SM'') WordB)))) (p, r, c)) \<longleftrightarrow>
     (\<exists>n d rest. r = n @ ''/'' @ d @ ''SM'' @ rest \<and> digits1 n \<and> digits1 d \<and> \<not> word_at rest \<and>
        st = (Some CHR ''M'', rest, f2 (f1 c n) d))"
proof -
  note m1 = D1[unfolded digit_field_def, rule_format]
  note m2 = D2[unfolded digit_field_def, rule_format]
  have chain: "st \<in> set (rmatch (Seq D1 (Seq (Lit ''/'') (Seq D2 (Seq (Lit ''SM'') WordB)))) (p, r, c)) \<longleftrightarrow>
      (\<exists>s1 s2 s3 s4. s1 \<in> set (rmatch D1 (p, r, c)) \<and> s2 \<in> set (rmatch (Lit ''/'') s1) \<and>
         s3 \<in> set (rmatch D2 s2) \<and> s4 \<in> set (rmatch (Lit ''SM'') s3) \<and>
         st \<in> set (rmatch WordB s4))"
    unfolding mem_Seq by blast
  show ?thesis
  proof
    assume "st \<in> set (rmatch (Seq D1 (Seq (Lit ''/'') (Seq D2 (Seq (Lit ''SM'') WordB)))) (p, r, c))"
    then obtain s1 s2 s3 s4 where
      s1: "s1 \<in> set (rmatch D1 (p, r, c))" and s2: "s2 \<in> set (rmatch (Lit ''/'') s1)" and
      s3: "s3 \<in> set (rmatch D2 s2)" and s4: "s4 \<in> set (rmatch (Lit ''SM'') s3)" and
      s5: "st \<in> set (rmatch WordB s4)"
      unfolding chain by blast
    from s1 obtain n r1 where n: "r = n @ r1" "digits1 n" and e1: "s1 = (Some (last n), r1, f1 c n)"
      unfolding m1 by blast
    from s2 obtain r2 where r1: "r1 = ''/'' @ r2" and e2: "s2 = (Some CHR ''/'', r2, f1 c n)"
      unfolding e1 mem_Lit by auto
    from s3 obtain d r3 where d: "r2 = d @ r3" "digits1 d"
      and e3: "s3 = (Some (last d), r3, f2 (f1 c n) d)"
      unfolding e2 m2 by blast
    from s4 obtain rest where r3: "r3 = ''SM'' @ rest"
      and e4: "s4 = (Some CHR ''M'', rest, f2 (f1 c n) d)"
      unfolding e3 mem_Lit by auto
    from s5 have e5: "st = s4" and b: "\<not> word_at rest"
      unfolding e4 mem_WordB by (simp_all add: at_boundary_def)
    from n r1 d r3 b e5 e4
    have "r = n @ ''/'' @ d @ ''SM'' @ rest \<and> digits1 n \<and> digits1 d \<and> \<not> word_at rest \<and>
        st = (Some CHR ''M'', rest, f2 (f1 c n) d)" by simp
    then show "\<exists>n d rest. r = n @ ''/'' @ d @ ''SM'' @ rest \<and> digits1 n \<and> digits1 d \<and>
        \<not> word_at rest \<and> st = (Some CHR ''M'', rest, f2 (f1 c n) d)" by blast
  next
    assume "\<exists>n d rest. r = n @ ''/'' @ d @ ''SM'' @ rest \<and> digits1 n \<and> digits1 d \<and>
        \<not> word_at rest \<and> st = (Some CHR ''M'', rest, f2 (f1 c n) d)"
    then obtain n d rest where h: "r = n @ ''/'' @ d @ ''SM'' @ rest" "digits1 n" "digits1 d"
      "\<not> word_at rest" "st = (Some CHR ''M'', rest, f2 (f1 c n) d)" by blast
    have 1: "(Some (last n), ''/'' @ d @ ''SM'' @ rest, f1 c n) \<in> set (rmatch D1 (p, r, c))"
      unfolding m1 using h(1,2) by blast
    have 2: "(Some CHR ''/'', d @ ''SM'' @ rest, f1 c n)
        \<in> set (rmatch (Lit ''/'') (Some (last n), ''/'' @ d @ ''SM'' @ rest, f1 c n))"
      unfolding mem_Lit by simp
    have 3: "(Some (last d), ''SM'' @ rest, f2 (f1 c n) d)
        \<in> set (rmatch D2 (Some CHR ''/'', d @ ''SM'' @ rest, f1 c n))"
      unfolding m2 using h(3) by blast
    have 4: "(Some CHR ''M'', rest, f2 (f1 c n) d)
        \<in> set (rmatch (Lit ''SM'') (Some (last d), ''SM'' @ rest, f2 (f1 c n) d))"
      unfolding mem_Lit by simp
    have 5: "st \<in> set (rmatch WordB (Some CHR ''M'', rest, f2 (f1 c n) d))"
      unfolding mem_WordB using h(4,5) by (simp add: at_boundary_def)
    from 1 2 3 4 5 show
      "st \<in> set (rmatch (Seq D1 (Seq (Lit ''/'') (Seq D2 (Seq (Lit ''SM'') WordB)))) (p, r, c))"
      unfolding chain by blast
  qed
qed

lemma digits1_hd: "digits1 n \<Longrightarrow> is_digit (hd (n @ t)) \<and> n @ t \<noteq> []"
  by (cases n) (auto simp: digits1_def)

lemma digits1_word_at: "digits1 n \<Longrightarrow> word_at (n @ t)"
  by (cases n) (auto simp: digits1_def is_digit_word)

lemma digit_not_space: "is_digit x \<Longrightarrow> \<not> is_space x"
  by (auto simp: is_digit_def is_space_def)

lemma spaces_hd: "u \<noteq> [] \<Longrightarrow> list_all is_space u \<Longrightarrow> is_space (hd (u @ t)) \<and> u @ t \<noteq> []"
  by (cases u) auto

lemma fraction_word_at: "fraction r = Some x \<Longrightarrow> word_at r"
proof -
  assume a: "fraction r = Some x"
  obtain n d where "x = (n, d)" by (cases x) auto
  with a have "fraction r = Some (n, d)" by simp
  then obtain rest where "r = n @ ''/'' @ d @ ''SM'' @ rest" "digits1 n"
    unfolding fraction_iff by blast
  then show ?thesis using digits1_word_at by simp
qed

lemma fracRe_reads: "reads fracRe frac_form (\<lambda>(n, d). Map.empty(1 \<mapsto> n, 2 \<mapsto> d))"
  unfolding fracRe_def seqs.simps
proof (rule reads_bodyI)
  fix p r p' r' c
  assume "(p', r', c) \<in> set (rmatch (Seq (Grp 1 (Rep Digit 1 None)) (Seq (Lit ''/'')
      (Seq (Grp 2 (Rep Digit 1 None)) (Seq (Lit ''SM'') WordB)))) (p, r, Map.empty))"
  then obtain n d rest where h: "r = n @ ''/'' @ d @ ''SM'' @ rest" "digits1 n" "digits1 d"
    "\<not> word_at rest" "c = Map.empty(1 \<mapsto> n, 2 \<mapsto> d)"
    unfolding mem_fraction[OF digit_field_Grp digit_field_Grp] by blast
  then have "fraction r = Some (n, d)" unfolding fraction_iff by blast
  with h(5) have "frac_form r = Some (n, d) \<and> c = (case (n, d) of (n, d) \<Rightarrow> Map.empty(1 \<mapsto> n, 2 \<mapsto> d))"
    by (simp add: frac_form_def)
  then show "\<exists>x. frac_form r = Some x \<and> c = (case x of (n, d) \<Rightarrow> Map.empty(1 \<mapsto> n, 2 \<mapsto> d))"
    by blast
next
  fix p r and x :: "string \<times> string"
  assume f: "frac_form r = Some x"
  obtain n d where x: "x = (n, d)" by (cases x) auto
  with f have "fraction r = Some (n, d)" by (simp add: frac_form_def)
  then obtain rest where h: "r = n @ ''/'' @ d @ ''SM'' @ rest" "digits1 n" "digits1 d"
    "\<not> word_at rest"
    unfolding fraction_iff by blast
  then have "(Some CHR ''M'', rest, Map.empty(1 \<mapsto> n, 2 \<mapsto> d))
      \<in> set (rmatch (Seq (Grp 1 (Rep Digit 1 None)) (Seq (Lit ''/'')
      (Seq (Grp 2 (Rep Digit 1 None)) (Seq (Lit ''SM'') WordB)))) (p, r, Map.empty))"
    unfolding mem_fraction[OF digit_field_Grp digit_field_Grp] by blast
  then show "rmatch (Seq (Grp 1 (Rep Digit 1 None)) (Seq (Lit ''/'')
      (Seq (Grp 2 (Rep Digit 1 None)) (Seq (Lit ''SM'') WordB)))) (p, r, Map.empty) \<noteq> []"
    by auto
next
  fix r and x :: "string \<times> string"
  assume "frac_form r = Some x"
  then show "word_at r" unfolding frac_form_def by (rule fraction_word_at)
qed

lemma less_form_iff:
  "less_form r = Some u \<longleftrightarrow> (\<exists>r1 n d. r = ''M'' @ r1 \<and> fraction r1 = Some (n, d))"
  unfolding less_form_def by (auto simp: bind_eq_Some_conv lit_pre_iff)

lemma visLessRe_reads: "reads visLessRe less_form (\<lambda>_. Map.empty)"
  unfolding visLessRe_def seqs.simps
proof (rule reads_bodyI)
  let ?T = "Seq (Rep Digit 1 None) (Seq (Lit ''/'') (Seq (Rep Digit 1 None) (Seq (Lit ''SM'') WordB)))"
  {
    fix p r p' r' c
    assume "(p', r', c) \<in> set (rmatch (Seq (Lit ''M'') ?T) (p, r, Map.empty))"
    then obtain s1 where s1: "s1 \<in> set (rmatch (Lit ''M'') (p, r, Map.empty))"
      and s2: "(p', r', c) \<in> set (rmatch ?T s1)"
      unfolding mem_Seq[of _ "Lit ''M''"] by blast
    from s1 obtain r1 where r: "r = ''M'' @ r1" and e1: "s1 = (Some CHR ''M'', r1, Map.empty)"
      unfolding mem_Lit by auto
    from s2 obtain n d rest where h: "r1 = n @ ''/'' @ d @ ''SM'' @ rest" "digits1 n" "digits1 d"
      "\<not> word_at rest" "c = Map.empty"
      unfolding e1 mem_fraction[OF digit_field_Rep digit_field_Rep] by blast
    then have "fraction r1 = Some (n, d)" unfolding fraction_iff by blast
    with r have "less_form r = Some ()" unfolding less_form_iff by blast
    with h(5) show "\<exists>x. less_form r = Some x \<and> c = Map.empty" by blast
  next
    fix p r and x :: unit
    assume "less_form r = Some x"
    then obtain r1 n d where r: "r = ''M'' @ r1" and f: "fraction r1 = Some (n, d)"
      unfolding less_form_iff by blast
    from f obtain rest where h: "r1 = n @ ''/'' @ d @ ''SM'' @ rest" "digits1 n" "digits1 d"
      "\<not> word_at rest"
      unfolding fraction_iff by blast
    have 1: "(Some CHR ''M'', r1, Map.empty) \<in> set (rmatch (Lit ''M'') (p, r, Map.empty))"
      unfolding mem_Lit r by simp
    have 2: "(Some CHR ''M'', rest, Map.empty) \<in> set (rmatch ?T (Some CHR ''M'', r1, Map.empty))"
      unfolding mem_fraction[OF digit_field_Rep digit_field_Rep] using h by blast
    from 1 2 have "(Some CHR ''M'', rest, Map.empty)
        \<in> set (rmatch (Seq (Lit ''M'') ?T) (p, r, Map.empty))"
      unfolding mem_Seq[of _ "Lit ''M''"] by blast
    then show "rmatch (Seq (Lit ''M'') ?T) (p, r, Map.empty) \<noteq> []" by auto
  next
    fix r and x :: unit
    assume "less_form r = Some x"
    then show "word_at r" unfolding less_form_iff by auto
  }
qed

lemma whole_form_iff:
  "whole_form r = Some n \<longleftrightarrow> (\<exists>rest. r = n @ ''SM'' @ rest \<and> digits1 n \<and> \<not> word_at rest)"
proof
  assume "whole_form r = Some n"
  then obtain r1 u where a: "digits_pre r = Some (n, r1)" "unit_end r1 = Some u"
    unfolding whole_form_def by (auto simp: bind_eq_Some_conv)
  from a(2) obtain rest where "r1 = ''SM'' @ rest" "\<not> word_at rest" unfolding unit_end_iff by blast
  with a(1) have "r = n @ ''SM'' @ rest \<and> digits1 n \<and> \<not> word_at rest"
    unfolding digits_pre_iff by simp
  then show "\<exists>rest. r = n @ ''SM'' @ rest \<and> digits1 n \<and> \<not> word_at rest" by blast
next
  assume "\<exists>rest. r = n @ ''SM'' @ rest \<and> digits1 n \<and> \<not> word_at rest"
  then obtain rest where h: "r = n @ ''SM'' @ rest" "digits1 n" "\<not> word_at rest" by blast
  have 1: "digits_pre r = Some (n, ''SM'' @ rest)" unfolding digits_pre_iff using h(1,2) by simp
  have 2: "unit_end (''SM'' @ rest) = Some ()" unfolding unit_end_iff using h(3) by blast
  from 1 2 show "whole_form r = Some n" by (simp add: whole_form_def)
qed

lemma wholeRe_reads: "reads wholeRe whole_form (\<lambda>n. Map.empty(1 \<mapsto> n))"
  unfolding wholeRe_def seqs.simps
proof (rule reads_bodyI)
  let ?B = "Seq (Grp 1 (Rep Digit 1 None)) (Seq (Lit ''SM'') WordB)"
  note g = digit_field_Grp[unfolded digit_field_def, rule_format]
  {
    fix p r p' r' c
    assume "(p', r', c) \<in> set (rmatch ?B (p, r, Map.empty))"
    then obtain s1 s2 where s1: "s1 \<in> set (rmatch (Grp 1 (Rep Digit 1 None)) (p, r, Map.empty))"
      and s2: "s2 \<in> set (rmatch (Lit ''SM'') s1)" and s3: "(p', r', c) \<in> set (rmatch WordB s2)"
      unfolding mem_Seq by blast
    from s1 obtain n r1 where n: "r = n @ r1" "digits1 n"
      and e1: "s1 = (Some (last n), r1, Map.empty(1 \<mapsto> n))"
      unfolding g by blast
    from s2 obtain rest where r1: "r1 = ''SM'' @ rest"
      and e2: "s2 = (Some CHR ''M'', rest, Map.empty(1 \<mapsto> n))"
      unfolding e1 mem_Lit by auto
    from s3 have c: "c = Map.empty(1 \<mapsto> n)" and b: "\<not> word_at rest"
      unfolding e2 mem_WordB by (simp_all add: at_boundary_def)
    from n r1 b have "whole_form r = Some n" unfolding whole_form_iff by auto
    with c show "\<exists>x. whole_form r = Some x \<and> c = Map.empty(1 \<mapsto> x)" by blast
  next
    fix p r and n :: string
    assume "whole_form r = Some n"
    then obtain rest where h: "r = n @ ''SM'' @ rest" "digits1 n" "\<not> word_at rest"
      unfolding whole_form_iff by blast
    have 1: "(Some (last n), ''SM'' @ rest, Map.empty(1 \<mapsto> n))
        \<in> set (rmatch (Grp 1 (Rep Digit 1 None)) (p, r, Map.empty))"
      unfolding g using h(1,2) by blast
    have 2: "(Some CHR ''M'', rest, Map.empty(1 \<mapsto> n))
        \<in> set (rmatch (Lit ''SM'') (Some (last n), ''SM'' @ rest, Map.empty(1 \<mapsto> n)))"
      unfolding mem_Lit by simp
    have 3: "(Some CHR ''M'', rest, Map.empty(1 \<mapsto> n))
        \<in> set (rmatch WordB (Some CHR ''M'', rest, Map.empty(1 \<mapsto> n)))"
      unfolding mem_WordB using h(3) by (simp add: at_boundary_def)
    from 1 2 3 have "(Some CHR ''M'', rest, Map.empty(1 \<mapsto> n)) \<in> set (rmatch ?B (p, r, Map.empty))"
      unfolding mem_Seq by blast
    then show "rmatch ?B (p, r, Map.empty) \<noteq> []" by auto
  next
    fix r and n :: string
    assume "whole_form r = Some n"
    then show "word_at r" unfolding whole_form_iff using digits1_word_at by auto
  }
qed

lemma mixed_form_iff:
  "mixed_form r = Some (w, n, d) \<longleftrightarrow>
     (\<exists>u r2. r = w @ u @ r2 \<and> digits1 w \<and> u \<noteq> [] \<and> list_all is_space u \<and>
        fraction r2 = Some (n, d))"
proof
  assume "mixed_form r = Some (w, n, d)"
  then obtain r1 r2 where a: "digits_pre r = Some (w, r1)" "spaces_pre r1 = Some r2"
    "fraction r2 = Some (n, d)"
    unfolding mixed_form_def by (auto simp: bind_eq_Some_conv)
  from a(2) obtain u where u: "r1 = u @ r2" "u \<noteq> []" "list_all is_space u"
    unfolding spaces_pre_iff by blast
  with a(1,3) have "r = w @ u @ r2 \<and> digits1 w \<and> u \<noteq> [] \<and> list_all is_space u \<and>
      fraction r2 = Some (n, d)"
    unfolding digits_pre_iff by simp
  then show "\<exists>u r2. r = w @ u @ r2 \<and> digits1 w \<and> u \<noteq> [] \<and> list_all is_space u \<and>
      fraction r2 = Some (n, d)" by blast
next
  assume "\<exists>u r2. r = w @ u @ r2 \<and> digits1 w \<and> u \<noteq> [] \<and> list_all is_space u \<and>
      fraction r2 = Some (n, d)"
  then obtain u r2 where h: "r = w @ u @ r2" "digits1 w" "u \<noteq> []" "list_all is_space u"
    "fraction r2 = Some (n, d)" by blast
  from h(5) obtain rest where r2: "r2 = n @ ''/'' @ d @ ''SM'' @ rest" "digits1 n"
    unfolding fraction_iff by blast
  from spaces_hd[OF h(3,4), of r2] have "u @ r2 = [] \<or> \<not> is_digit (hd (u @ r2))"
    using digit_not_space by blast
  with h(1,2) have 1: "digits_pre r = Some (w, u @ r2)" unfolding digits_pre_iff by simp
  from digits1_hd[OF r2(2), of "''/'' @ d @ ''SM'' @ rest"] r2(1)
  have "r2 = [] \<or> \<not> is_space (hd r2)" using digit_not_space by auto
  with h(3,4) have 2: "spaces_pre (u @ r2) = Some r2" unfolding spaces_pre_iff by blast
  from 1 2 h(5) show "mixed_form r = Some (w, n, d)" by (simp add: mixed_form_def)
qed

lemma mixedRe_reads:
  "reads mixedRe mixed_form (\<lambda>(w, n, d). Map.empty(1 \<mapsto> w, 2 \<mapsto> n, 3 \<mapsto> d))"
  unfolding mixedRe_def seqs.simps
proof (rule reads_bodyI)
  let ?T = "Seq (Grp 2 (Rep Digit 1 None)) (Seq (Lit ''/'') (Seq (Grp 3 (Rep Digit 1 None))
      (Seq (Lit ''SM'') WordB)))"
  let ?B = "Seq (Grp 1 (Rep Digit 1 None)) (Seq (Rep Space 1 None) ?T)"
  note g = digit_field_Grp[unfolded digit_field_def, rule_format]
  have chain: "st \<in> set (rmatch ?B s0) \<longleftrightarrow>
      (\<exists>s1 s2. s1 \<in> set (rmatch (Grp 1 (Rep Digit 1 None)) s0) \<and>
         s2 \<in> set (rmatch (Rep Space 1 None) s1) \<and> st \<in> set (rmatch ?T s2))" for st s0
    unfolding mem_Seq[of _ "Grp 1 (Rep Digit 1 None)"] mem_Seq[of _ "Rep Space 1 None"] by blast
  {
    fix p r p' r' c
    assume "(p', r', c) \<in> set (rmatch ?B (p, r, Map.empty))"
    then obtain s1 s2 where s1: "s1 \<in> set (rmatch (Grp 1 (Rep Digit 1 None)) (p, r, Map.empty))"
      and s2: "s2 \<in> set (rmatch (Rep Space 1 None) s1)"
      and s3: "(p', r', c) \<in> set (rmatch ?T s2)"
      unfolding chain by blast
    from s1 obtain w r1 where w: "r = w @ r1" "digits1 w"
      and e1: "s1 = (Some (last w), r1, Map.empty(1 \<mapsto> w))"
      unfolding g by blast
    from s2 obtain u r2 where u: "r1 = u @ r2" "u \<noteq> []" "list_all is_space u"
      and e2: "s2 = (Some (last u), r2, Map.empty(1 \<mapsto> w))"
      unfolding e1 mem_spaces by blast
    from s3 obtain n d rest where h: "r2 = n @ ''/'' @ d @ ''SM'' @ rest" "digits1 n" "digits1 d"
      "\<not> word_at rest" "c = Map.empty(1 \<mapsto> w, 2 \<mapsto> n, 3 \<mapsto> d)"
      unfolding e2 mem_fraction[OF digit_field_Grp digit_field_Grp] by blast
    then have "fraction r2 = Some (n, d)" unfolding fraction_iff by blast
    with w u have "mixed_form r = Some (w, n, d)" unfolding mixed_form_iff by auto
    with h(5) have "mixed_form r = Some (w, n, d) \<and>
        c = (case (w, n, d) of (w, n, d) \<Rightarrow> Map.empty(1 \<mapsto> w, 2 \<mapsto> n, 3 \<mapsto> d))" by simp
    then show "\<exists>x. mixed_form r = Some x \<and>
        c = (case x of (w, n, d) \<Rightarrow> Map.empty(1 \<mapsto> w, 2 \<mapsto> n, 3 \<mapsto> d))" by blast
  next
    fix p r and x :: "string \<times> string \<times> string"
    assume f: "mixed_form r = Some x"
    obtain w n d where "x = (w, n, d)" by (cases x) auto
    with f have "mixed_form r = Some (w, n, d)" by simp
    then obtain u r2 where h: "r = w @ u @ r2" "digits1 w" "u \<noteq> []" "list_all is_space u"
      "fraction r2 = Some (n, d)"
      unfolding mixed_form_iff by blast
    from h(5) obtain rest where t: "r2 = n @ ''/'' @ d @ ''SM'' @ rest" "digits1 n" "digits1 d"
      "\<not> word_at rest"
      unfolding fraction_iff by blast
    have 1: "(Some (last w), u @ r2, Map.empty(1 \<mapsto> w))
        \<in> set (rmatch (Grp 1 (Rep Digit 1 None)) (p, r, Map.empty))"
      unfolding g using h(1,2) by blast
    have 2: "(Some (last u), r2, Map.empty(1 \<mapsto> w))
        \<in> set (rmatch (Rep Space 1 None) (Some (last w), u @ r2, Map.empty(1 \<mapsto> w)))"
      unfolding mem_spaces using h(3,4) by blast
    have 3: "(Some CHR ''M'', rest, Map.empty(1 \<mapsto> w, 2 \<mapsto> n, 3 \<mapsto> d))
        \<in> set (rmatch ?T (Some (last u), r2, Map.empty(1 \<mapsto> w)))"
      unfolding mem_fraction[OF digit_field_Grp digit_field_Grp] using t by blast
    from 1 2 3 have "(Some CHR ''M'', rest, Map.empty(1 \<mapsto> w, 2 \<mapsto> n, 3 \<mapsto> d))
        \<in> set (rmatch ?B (p, r, Map.empty))"
      unfolding chain by blast
    then show "rmatch ?B (p, r, Map.empty) \<noteq> []" by auto
  next
    fix r and x :: "string \<times> string \<times> string"
    assume f: "mixed_form r = Some x"
    obtain w n d where "x = (w, n, d)" by (cases x) auto
    with f have "mixed_form r = Some (w, n, d)" by simp
    then obtain u r2 where "r = w @ u @ r2" "digits1 w" unfolding mixed_form_iff by blast
    then show "word_at r" using digits1_word_at by simp
  }
qed

section \<open>The visibility\<close>

text \<open>
  The extraction as the specification words it: the four forms in their order of priority,
  each looked for in the whole report, the first form that occurs anywhere deciding the
  value; within a form the leftmost occurrence counts.
\<close>

text \<open>The number a run of digits writes, as a double.\<close>

definition num_of :: "string \<Rightarrow> jsnum" where
  "num_of a = to_num (fl_int (digits_int a))"

definition spec_visibility :: "string \<Rightarrow> jsnum option" where
  "spec_visibility s =
     (if first_form less_form s \<noteq> None then Some (Num 0)
      else case first_form mixed_form s of
        Some (w, n, d) \<Rightarrow> Some (js_add (num_of w) (js_div (num_of n) (num_of d)))
      | None \<Rightarrow>
       (case first_form frac_form s of
          Some (n, d) \<Rightarrow> Some (js_div (num_of n) (num_of d))
        | None \<Rightarrow>
         (case first_form whole_form s of
            Some n \<Rightarrow> Some (num_of n)
          | None \<Rightarrow> None)))"

lemma first_some_mem: "first_some f ws = Some y \<Longrightarrow> \<exists>w\<in>set ws. f w = Some y"
  by (induction ws) (auto split: option.splits)

lemma parseInt_num_of: "digits1 a \<Longrightarrow> to_num (parseInt a) = num_of a"
proof -
  assume "digits1 a"
  then have tw: "takeWhile is_digit a = a" and ne: "a \<noteq> []"
    by (simp_all add: digits1_def list_all_iff takeWhile_eq_all_conv)
  show ?thesis unfolding parseInt_def Let_def tw num_of_def using ne by simp
qed

lemma first_mixed_digits:
  assumes "first_form mixed_form s = Some (w, n, d)"
  shows "digits1 w \<and> digits1 n \<and> digits1 d"
proof -
  from first_some_mem[OF assms[unfolded first_form_def]] obtain r
    where "mixed_form r = Some (w, n, d)" by blast
  then show ?thesis unfolding mixed_form_iff fraction_iff by blast
qed

lemma first_frac_digits:
  assumes "first_form frac_form s = Some (n, d)"
  shows "digits1 n \<and> digits1 d"
proof -
  from first_some_mem[OF assms[unfolded first_form_def]] obtain r
    where "frac_form r = Some (n, d)" by blast
  then show ?thesis unfolding frac_form_def fraction_iff by blast
qed

lemma first_whole_digits:
  assumes "first_form whole_form s = Some n"
  shows "digits1 n"
proof -
  from first_some_mem[OF assms[unfolded first_form_def]] obtain r
    where "whole_form r = Some n" by blast
  then show ?thesis unfolding whole_form_iff by blast
qed

lemma parseVisibility_spec: "parseVisibility s = spec_visibility s"
proof (cases "first_form less_form s")
  case (Some u)
  then show ?thesis
    unfolding parseVisibility_def spec_visibility_def js_test_forms[OF visLessRe_reads] by simp
next
  case less: None
  show ?thesis
  proof (cases "first_form mixed_form s")
    case (Some x)
    obtain w n d where x: "x = (w, n, d)" by (cases x) auto
    from first_mixed_digits[OF Some[unfolded x]] have "digits1 w" "digits1 n" "digits1 d"
      by simp_all
    then have "to_num (parseInt w) = num_of w" "to_num (parseInt n) = num_of n"
      "to_num (parseInt d) = num_of d" by (simp_all add: parseInt_num_of)
    then show ?thesis
      unfolding parseVisibility_def spec_visibility_def js_test_forms[OF visLessRe_reads]
        js_match_forms[OF mixedRe_reads] less Some x
      by (simp add: grp_def)
  next
    case mixed: None
    show ?thesis
    proof (cases "first_form frac_form s")
      case (Some x)
      obtain n d where x: "x = (n, d)" by (cases x) auto
      from first_frac_digits[OF Some[unfolded x]] have "digits1 n" "digits1 d" by simp_all
      then have "to_num (parseInt n) = num_of n" "to_num (parseInt d) = num_of d"
        by (simp_all add: parseInt_num_of)
      then show ?thesis
        unfolding parseVisibility_def spec_visibility_def js_test_forms[OF visLessRe_reads]
          js_match_forms[OF mixedRe_reads] js_match_forms[OF fracRe_reads] less mixed Some x
        by (simp add: grp_def)
    next
      case frac: None
      show ?thesis
      proof (cases "first_form whole_form s")
        case (Some n)
        from first_whole_digits[OF Some] have "to_num (parseInt n) = num_of n"
          by (simp add: parseInt_num_of)
        then show ?thesis
          unfolding parseVisibility_def spec_visibility_def js_test_forms[OF visLessRe_reads]
            js_match_forms[OF mixedRe_reads] js_match_forms[OF fracRe_reads]
            js_match_forms[OF wholeRe_reads] less mixed frac Some
          by (simp add: grp_def)
      next
        case None
        then show ?thesis
          unfolding parseVisibility_def spec_visibility_def js_test_forms[OF visLessRe_reads]
            js_match_forms[OF mixedRe_reads] js_match_forms[OF fracRe_reads]
            js_match_forms[OF wholeRe_reads] less mixed frac
          by simp
      qed
    qed
  qed
qed

lemma spec_visibility_None:
  "spec_visibility s = None \<longleftrightarrow>
     first_form less_form s = None \<and> first_form mixed_form s = None \<and>
     first_form frac_form s = None \<and> first_form whole_form s = None"
  unfolding spec_visibility_def
  by (cases "first_form less_form s") (auto split: option.splits)

lemma eval_visibility_examples:
  "parseVisibility ''M1/4SM'' = Some (Num 0)"
  "parseVisibility ''2 1/2SM'' = Some (Num (5 / 2))"
  "parseVisibility ''3/4SM'' = Some (Num (3 / 4))"
  "parseVisibility ''10SM'' = Some (Num 10)"
  "parseVisibility ''CAVOK'' = None"
  by code_simp+

lemma eval_spec_visibility:
  "spec_visibility ''10SM M1/4SM'' = Some (Num 0)"
  "spec_visibility ''3/4SM 2 1/2SM'' = Some (Num (5 / 2))"
  "spec_visibility ''10SM 3/4SM'' = Some (Num (3 / 4))"
  "spec_visibility ''A10SM 7SM'' = Some (Num 7)"
  "spec_visibility ''OVC010'' = None"
  "spec_visibility ''9007199254740993SM'' = Some (Num 9007199254740992)"
  by code_simp+

text \<open>
  The values are doubles. A whole number beyond \<open>2\<^sup>5\<^sup>3\<close> is the nearest double, a
  nineteen-digit numerator and a twenty-digit denominator can be the same double, a
  quotient is rounded, and the translation prints what the double is: \<open>3/40\<close> to two
  decimals is \<open>0.07\<close>, and \<open>10\<^sup>2\<^sup>1\<close> is printed with an exponent.
\<close>

lemma eval_visibility_doubles:
  "parseVisibility ''9007199254740993SM'' = Some (Num 9007199254740992)"
  "parseVisibility ''9999999999999999999/10000000000000000000SM'' = Some (Num 1)"
  "parseVisibility ''1/3SM'' = Some (Num (6004799503160661 / 18014398509481984))"
  "translateMetar ''3/40SM'' = Inr ''Visibility 0.07 statute miles.''"
  "visibility_sentence ''1000000000000000000000SM'' = [''Visibility 1e+21 statute miles.'']"
  by code_simp+

text \<open>
  Claim C3. \<open>parseVisibility\<close> is the priority chain of the four forms: \<open>0\<close> when the
  form \<open>M<num>/<den>SM\<close> occurs at a word start of the report; otherwise whole plus
  numerator over denominator of the first \<open><whole> <num>/<den>SM\<close>; otherwise the
  quotient of the first \<open><num>/<den>SM\<close>; otherwise the number of the first
  \<open><digits>SM\<close>. The result is absent exactly when none of the four forms occurs, and it
  is then not a number at all. The numbers are those of the program: each field is the
  double nearest to the number its digits write, and sum and quotient are the rounded ones
  of JavaScript. The four examples of the specification evaluate to \<open>0\<close>, \<open>5/2\<close>, \<open>3/4\<close>
  and \<open>10\<close>.
\<close>

theorem visibility_forms:
  "parseVisibility s = spec_visibility s \<and>
   (parseVisibility s = None \<longleftrightarrow>
      first_form less_form s = None \<and> first_form mixed_form s = None \<and>
      first_form frac_form s = None \<and> first_form whole_form s = None) \<and>
   parseVisibility ''M1/4SM'' = Some (Num 0) \<and>
   parseVisibility ''2 1/2SM'' = Some (Num (5 / 2)) \<and>
   parseVisibility ''3/4SM'' = Some (Num (3 / 4)) \<and>
   parseVisibility ''10SM'' = Some (Num 10)"
proof -
  have "parseVisibility s = None \<longleftrightarrow>
      first_form less_form s = None \<and> first_form mixed_form s = None \<and>
      first_form frac_form s = None \<and> first_form whole_form s = None"
    unfolding parseVisibility_spec by (rule spec_visibility_None)
  with parseVisibility_spec[of s] eval_visibility_examples(1-4) show ?thesis by (intro conjI)
qed

theorem visibility_forms_witness:
  "parseVisibility ''10SM M1/4SM'' = Some (Num 0) \<and>
   parseVisibility ''3/4SM 2 1/2SM'' = Some (Num (5 / 2)) \<and>
   parseVisibility ''10SM 3/4SM'' = Some (Num (3 / 4)) \<and>
   parseVisibility ''A10SM 7SM'' = Some (Num 7) \<and>
   parseVisibility ''OVC010'' = None \<and>
   parseVisibility ''9007199254740993SM'' = Some (Num 9007199254740992)"
proof -
  have 1: "parseVisibility ''10SM M1/4SM'' = Some (Num 0)"
    using visibility_forms[of "''10SM M1/4SM''", THEN conjunct1]
    unfolding eval_spec_visibility .
  have 2: "parseVisibility ''3/4SM 2 1/2SM'' = Some (Num (5 / 2))"
    using visibility_forms[of "''3/4SM 2 1/2SM''", THEN conjunct1]
    unfolding eval_spec_visibility .
  have 3: "parseVisibility ''10SM 3/4SM'' = Some (Num (3 / 4))"
    using visibility_forms[of "''10SM 3/4SM''", THEN conjunct1]
    unfolding eval_spec_visibility .
  have 4: "parseVisibility ''A10SM 7SM'' = Some (Num 7)"
    using visibility_forms[of "''A10SM 7SM''", THEN conjunct1]
    unfolding eval_spec_visibility .
  have 5: "parseVisibility ''OVC010'' = None"
    using visibility_forms[of "''OVC010''", THEN conjunct1]
    unfolding eval_spec_visibility .
  have 6: "parseVisibility ''9007199254740993SM'' = Some (Num 9007199254740992)"
    using visibility_forms[of "''9007199254740993SM''", THEN conjunct1]
    unfolding eval_spec_visibility .
  from 1 2 3 4 5 6 show ?thesis by (intro conjI)
qed

section \<open>The sky sentence in the two translations\<close>

text \<open>
  Claim C6 fails on the code. The claim has the pseudo-layer \<open>sky clear\<close> only when the
  report has no sky-layer token. \<open>translateMetar\<close> tests for \<open>CLR\<close>, \<open>SKC\<close> and \<open>CAVOK\<close>
  after its loop and pushes the pseudo-layer without looking at the layers found, whereas
  \<open>translateTaf\<close> guards the same sentence with \<open>else if\<close>. The sky sentence of every METAR
  translation is the one below: the real layers in the order of the report, then the
  pseudo-layer whenever one of the three words occurs, joined with a comma and a space,
  the first letter a capital, closed by a full stop. A report with a layer and one of the
  words thus gets a sentence that says both, where the TAF translation of the same kind of
  report names the layer only.
\<close>

theorem metar_sky_clear_unguarded:
  "(\<exists>wx temp. weather_sentence s = Inr wx \<and> temperature_sentence s = Inr temp \<and>
      (let layers = sky_layers s @
             (if has_word [''CLR'', ''SKC'', ''CAVOK''] s then [''sky clear''] else []);
           sky = (case layers of [] \<Rightarrow> [] | l # ls \<Rightarrow> [join '', '' (cap l # ls) @ ''.'']);
           parts = wind_sentence ''Wind'' s @ visibility_sentence s @ wx @ sky @ temp @
                   altimeter_sentence s
       in metar_parts s = Inr parts \<and>
          translateMetar s =
            Inr (if parts \<noteq> [] then join '' '' parts else ''Unable to translate METAR.''))) \<and>
   translateMetar ''BKN025 CLR'' = Inr ''Broken clouds at 2,500 feet, sky clear.'' \<and>
   translateMetar ''OVC010 CAVOK'' = Inr ''Overcast at 1,000 feet, sky clear.'' \<and>
   translateTaf ''BKN025 SKC'' = Inr ''Broken clouds at 2,500 feet.''"
proof -
  from weather_sentence_ok[of s] obtain wx where wx: "weather_sentence s = Inr wx" by blast
  from temperature_sentence_ok[of s] obtain tp where tp: "temperature_sentence s = Inr tp"
    by blast
  have sky: "sky_sentence s =
      Inr (case sky_layers s @
                (if has_word [''CLR'', ''SKC'', ''CAVOK''] s then [''sky clear''] else []) of
             [] \<Rightarrow> [] | l # ls \<Rightarrow> [join '', '' (cap l # ls) @ ''.''])"
    unfolding sky_sentence_join metar_layers_words ..
  have 1: "\<exists>wx temp. weather_sentence s = Inr wx \<and> temperature_sentence s = Inr temp \<and>
      (let layers = sky_layers s @
             (if has_word [''CLR'', ''SKC'', ''CAVOK''] s then [''sky clear''] else []);
           sky = (case layers of [] \<Rightarrow> [] | l # ls \<Rightarrow> [join '', '' (cap l # ls) @ ''.'']);
           parts = wind_sentence ''Wind'' s @ visibility_sentence s @ wx @ sky @ temp @
                   altimeter_sentence s
       in metar_parts s = Inr parts \<and>
          translateMetar s =
            Inr (if parts \<noteq> [] then join '' '' parts else ''Unable to translate METAR.''))"
    unfolding Let_def translateMetar_def metar_parts_def wx tp sky
    by (intro exI[of _ wx] exI[of _ tp]) simp
  have 2: "translateMetar ''BKN025 CLR'' = Inr ''Broken clouds at 2,500 feet, sky clear.''"
    by code_simp
  have 3: "translateMetar ''OVC010 CAVOK'' = Inr ''Overcast at 1,000 feet, sky clear.''"
    by code_simp
  have 4: "translateTaf ''BKN025 SKC'' = Inr ''Broken clouds at 2,500 feet.''"
    by code_simp
  from 1 2 3 4 show ?thesis by (intro conjI)
qed

text \<open>A report with a word is not blank.\<close>

lemma find_words: "find P (words_of s) = Some w \<Longrightarrow> s \<noteq> [] \<and> js_trim s \<noteq> []"
  by (rule words_not_blank) auto

lemma has_word_words: "has_word ws s \<Longrightarrow> s \<noteq> [] \<and> js_trim s \<noteq> []"
  unfolding has_word_def by (rule words_not_blank) auto

text \<open>
  Claim C8. In the TAF translation the sky sentence is the phrase of the first sky-layer
  token among the words of the report, capitalised and closed by a full stop; the phrase
  is the one the METAR loop pushes for the same token. When the report has no sky-layer
  token, the sentence is \<open>Sky clear.\<close> exactly when one of its words is \<open>SKC\<close> or
  \<open>CAVOK\<close>; the word \<open>CLR\<close> does not count here. This sentence stands among the parts of
  the translation, after the validity period, the wind and the visibility and before the
  change groups, and \<open>translateTaf\<close> returns the parts joined by spaces.
\<close>

theorem taf_first_sky_layer:
  "taf_sky_sentence s =
     Inr (case find sky_token (words_of s) of
            Some w \<Rightarrow> [cap (layer_text w) @ ''.'']
          | None \<Rightarrow> if has_word [''SKC'', ''CAVOK''] s then [''Sky clear.''] else []) \<and>
   sky_loop None s [] = map layer_text (filter sky_token (words_of s)) \<and>
   taf_parts s =
     Inr (period_sentence s @ wind_sentence ''Initial wind'' s @ visibility_sentence s @
          (case find sky_token (words_of s) of
             Some w \<Rightarrow> [cap (layer_text w) @ ''.'']
           | None \<Rightarrow> if has_word [''SKC'', ''CAVOK''] s then [''Sky clear.''] else []) @
          change_sentence s) \<and>
   (\<forall>w. find sky_token (words_of s) = Some w \<longrightarrow>
      translateTaf s =
        Inr (join '' '' (period_sentence s @ wind_sentence ''Initial wind'' s @
                         visibility_sentence s @ [cap (layer_text w) @ ''.''] @
                         change_sentence s))) \<and>
   (find sky_token (words_of s) = None \<longrightarrow> has_word [''SKC'', ''CAVOK''] s \<longrightarrow>
      translateTaf s =
        Inr (join '' '' (period_sentence s @ wind_sentence ''Initial wind'' s @
                         visibility_sentence s @ [''Sky clear.''] @ change_sentence s)))"
proof -
  note sky = taf_sky_words[of s]
  have 1: "sky_loop None s [] = map layer_text (filter sky_token (words_of s))"
    using sky_loop_words[of None s "[]"] by (simp add: words_from_def)
  have 2: "taf_parts s =
     Inr (period_sentence s @ wind_sentence ''Initial wind'' s @ visibility_sentence s @
          (case find sky_token (words_of s) of
             Some w \<Rightarrow> [cap (layer_text w) @ ''.'']
           | None \<Rightarrow> if has_word [''SKC'', ''CAVOK''] s then [''Sky clear.''] else []) @
          change_sentence s)"
    unfolding taf_parts_def sky by simp
  have 3: "translateTaf s =
        Inr (join '' '' (period_sentence s @ wind_sentence ''Initial wind'' s @
                         visibility_sentence s @ [cap (layer_text w) @ ''.''] @
                         change_sentence s))"
    if f: "find sky_token (words_of s) = Some w" for w
    using find_words[OF f] unfolding translateTaf_def 2 f by simp
  have 4: "translateTaf s =
        Inr (join '' '' (period_sentence s @ wind_sentence ''Initial wind'' s @
                         visibility_sentence s @ [''Sky clear.''] @ change_sentence s))"
    if f: "find sky_token (words_of s) = None" and h: "has_word [''SKC'', ''CAVOK''] s"
    using has_word_words[OF h] h unfolding translateTaf_def 2 f by simp
  from sky 1 2 3 4 show ?thesis by blast
qed

lemma eval_taf_first_token:
  "find sky_token (words_of ''SCT015 OVC009TCU'') = Some ''SCT015''"
  "join '' '' (period_sentence ''SCT015 OVC009TCU'' @
      wind_sentence ''Initial wind'' ''SCT015 OVC009TCU'' @
      visibility_sentence ''SCT015 OVC009TCU'' @ [cap (layer_text ''SCT015'') @ ''.''] @
      change_sentence ''SCT015 OVC009TCU'') = ''Scattered clouds at 1,500 feet.''"
  by code_simp+

lemma eval_taf_cavok:
  "find sky_token (words_of ''TAF CAVOK'') = None"
  "has_word [''SKC'', ''CAVOK''] ''TAF CAVOK''"
  "join '' '' (period_sentence ''TAF CAVOK'' @ wind_sentence ''Initial wind'' ''TAF CAVOK'' @
      visibility_sentence ''TAF CAVOK'' @ [''Sky clear.''] @ change_sentence ''TAF CAVOK'') =
   ''Sky clear.''"
  by code_simp+

lemma eval_taf_clr:
  "translateTaf ''TAF CLR'' = Inr ''Unable to translate TAF.''"
  "translateMetar ''TAF CLR'' = Inr ''Sky clear.''"
  "translateMetar ''SCT015 OVC009TCU'' =
     Inr ''Scattered clouds at 1,500 feet, overcast at 900 feet with towering cumulus.''"
  by code_simp+

theorem taf_first_sky_layer_witness:
  "translateTaf ''SCT015 OVC009TCU'' = Inr ''Scattered clouds at 1,500 feet.'' \<and>
   translateTaf ''TAF CAVOK'' = Inr ''Sky clear.'' \<and>
   translateTaf ''TAF CLR'' = Inr ''Unable to translate TAF.'' \<and>
   translateMetar ''TAF CLR'' = Inr ''Sky clear.'' \<and>
   translateMetar ''SCT015 OVC009TCU'' =
     Inr ''Scattered clouds at 1,500 feet, overcast at 900 feet with towering cumulus.''"
proof -
  note t1 = taf_first_sky_layer[of "''SCT015 OVC009TCU''", THEN conjunct2, THEN conjunct2,
      THEN conjunct2, THEN conjunct1, rule_format, OF eval_taf_first_token(1)]
  have 1: "translateTaf ''SCT015 OVC009TCU'' = Inr ''Scattered clouds at 1,500 feet.''"
    using t1 unfolding eval_taf_first_token(2) .
  note t2 = taf_first_sky_layer[of "''TAF CAVOK''", THEN conjunct2, THEN conjunct2,
      THEN conjunct2, THEN conjunct2, rule_format, OF eval_taf_cavok(1,2)]
  have 2: "translateTaf ''TAF CAVOK'' = Inr ''Sky clear.''"
    using t2 unfolding eval_taf_cavok(3) .
  from 1 2 eval_taf_clr show ?thesis by (intro conjI)
qed

end
